theory Spec2Isabelle
  imports Complex_Main "HOL-Library.Multiset"
begin

section \<open>Errors raised by the modelled code\<close>

text \<open>
  Every \<^verbatim>\<open>raise\<close>, failed \<^verbatim>\<open>assert\<close> and failing index or attribute access of the
  modelled Python is a value of this type; a fallible function returns \<open>error + 'a\<close>
  with \<open>Inl\<close> for the raised exception.
\<close>

datatype error =
    NotImplementedError
  | AssertionError
  | NameError
  | AttributeError
  | IndexError
  | ZeroDivisionError
  | RuntimeError
  | ValueError

section \<open>NasBench301SearchSpace.query (graph.py, lines 364-400)\<close>

text \<open>
  The members of the \<^verbatim>\<open>Metric\<close> enumeration that the two modelled files mention. The
  default argument \<^verbatim>\<open>metric=None\<close> is \<open>None\<close> of \<open>Metric option\<close>.
\<close>

datatype Metric =
    RAW
  | TRAIN_ACCURACY
  | VAL_ACCURACY
  | TEST_ACCURACY
  | TRAIN_LOSS
  | TRAIN_TIME

text \<open>
  The benchmark handle: \<^verbatim>\<open>dataset_api["nb301_model"]\<close> is a pair of surrogate models, the
  first predicting validation accuracy and the second the runtime. Their \<^verbatim>\<open>predict\<close>
  methods belong to the external benchmark and are opaque functions of the genotype.
\<close>

record 'g dataset_api =
  nb301_model_0 :: "'g \<Rightarrow> real"
  nb301_model_1 :: "'g \<Rightarrow> real"

text \<open>
  \<^verbatim>\<open>assert not epoch or epoch in [-1, 100]\<close>: an integer is falsy exactly when it is 0.
\<close>

definition epoch_assertion :: "int \<Rightarrow> bool" where
  "epoch_assertion epoch = (epoch = 0 \<or> epoch \<in> set [-1, 100])"

text \<open>
  \<open>convert_naslib_to_genotype\<close> lives in the conversions module and is a parameter here:
  it maps the search-space object to the genotype that is handed to the surrogate.
  The order of the checks is the order of the source: the handle, the assertion, the
  conversion, the metric.
\<close>

definition query ::
  "('s \<Rightarrow> 'g) \<Rightarrow> 's \<Rightarrow> Metric option \<Rightarrow> int \<Rightarrow> 'g dataset_api option \<Rightarrow> error + real"
where
  "query convert_naslib_to_genotype self metric epoch dataset_api =
     (case dataset_api of
        None \<Rightarrow> Inl NotImplementedError
      | Some api \<Rightarrow>
          if \<not> epoch_assertion epoch then Inl AssertionError
          else
            let genotype = convert_naslib_to_genotype self in
            if metric = Some VAL_ACCURACY then Inr (nb301_model_0 api genotype)
            else if metric = Some TRAIN_TIME then Inr (nb301_model_1 api genotype)
            else Inr (- 1))"

text \<open>A benchmark handle with constant predictions, used for concrete evaluations.\<close>

definition example_api :: "unit dataset_api" where
  "example_api = \<lparr>nb301_model_0 = (\<lambda>g. 90), nb301_model_1 = (\<lambda>g. 5000)\<rparr>"

definition example_genotype :: "unit \<Rightarrow> unit" where
  "example_genotype self = ()"

section \<open>NasBench301SearchSpace._truncate_input_edges (graph.py, lines 402-442)\<close>

text \<open>
  An entry of an architecture-weight tensor. The code writes \<^verbatim>\<open>-float("Inf")\<close> into such a
  tensor, so minus infinity is a value of its own; not-a-number and plus infinity are not
  modelled.
\<close>

datatype weight = NegInf | Fin real

fun wmin2 :: "weight \<Rightarrow> weight \<Rightarrow> weight" where
  "wmin2 NegInf w = NegInf"
| "wmin2 (Fin x) NegInf = NegInf"
| "wmin2 (Fin x) (Fin y) = Fin (min x y)"

text \<open>
  \<^verbatim>\<open>torch.min(alpha)\<close> of a tensor with at least one entry; the callers raise for the
  empty tensor before they ask for its minimum.
\<close>

fun torch_min :: "weight list \<Rightarrow> weight" where
  "torch_min [] = NegInf"
| "torch_min (w # ws) = fold wmin2 ws w"

fun wsub :: "weight \<Rightarrow> real \<Rightarrow> weight" where
  "wsub NegInf c = NegInf"
| "wsub (Fin x) c = Fin (x - c)"

text \<open>
  The \<^verbatim>\<open>op\<close> attribute of an edge is either a list of candidate primitives or one
  primitive; a primitive is represented by its \<^verbatim>\<open>get_op_name\<close>.
\<close>

datatype op_attr = OpList "string list" | OpSingle string

text \<open>
  The attributes of an \<^verbatim>\<open>EdgeData\<close> that the function reads or writes. An attribute that
  the edge does not have (\<^verbatim>\<open>has(name)\<close> is false) is \<open>None\<close>. The field \<open>deleted\<close> is
  the mark that \<^verbatim>\<open>delete()\<close> leaves on an edge.
\<close>

record EdgeData =
  alpha :: "weight list option"
  final :: "bool option"
  op :: "op_attr option"
  deleted :: bool

type_synonym in_edges = "(nat \<times> EdgeData) list"

definition has_alpha :: "EdgeData \<Rightarrow> bool" where
  "has_alpha e = (alpha e \<noteq> None)"

text \<open>\<^verbatim>\<open>e.has("final") and e.final\<close>\<close>

definition is_finalized :: "EdgeData \<Rightarrow> bool" where
  "is_finalized e = (final e = Some True)"

text \<open>
  Modelled from the spec: the classes Graph and EdgeData (module
  \<^verbatim>\<open>naslib.search_spaces.core.graph\<close>) are not among the source files. \<^verbatim>\<open>EdgeData.delete()\<close>
  marks the edge it is called on; the list \<^verbatim>\<open>in_edges\<close> that the function was given keeps
  its length; and the marked edges are the ones that discretization deletes from the
  graph, so that the unmarked ones are the incoming edges that remain.
\<close>

definition delete :: "EdgeData \<Rightarrow> EdgeData" where
  "delete e = e\<lparr>deleted := True\<rparr>"

text \<open>The incoming edges that are left once the flagged ones are removed.\<close>

definition remaining_edges :: "in_edges \<Rightarrow> in_edges" where
  "remaining_edges es = filter (\<lambda>(v, d). \<not> deleted d) es"

text \<open>
  The first loop of the one-shot case (lines 424-427). A finalized edge ends the whole
  function (\<open>True\<close> in the result); the edges enumerated before it have been written to
  already. \<^verbatim>\<open>data.alpha\<close> of an edge without that attribute raises AttributeError, and
  index 1 of a tensor with fewer than two entries raises IndexError.
\<close>

fun mask_zero_op :: "in_edges \<Rightarrow> error + (bool \<times> in_edges)" where
  "mask_zero_op [] = Inr (False, [])"
| "mask_zero_op ((v, d) # es) =
     (if is_finalized d then Inr (True, (v, d) # es)
      else
        case alpha d of
          None \<Rightarrow> Inl AttributeError
        | Some a \<Rightarrow>
            if length a < 2 then Inl IndexError
            else
              (case mask_zero_op es of
                 Inl e \<Rightarrow> Inl e
               | Inr (returned, es') \<Rightarrow>
                   Inr (returned, (v, d\<lparr>alpha := Some (a[1 := NegInf])\<rparr>) # es')))"

text \<open>
  The sort key (lines 408-418). \<^verbatim>\<open>detach()\<close> shares the storage of the tensor, so the
  assignment to index 1 is a write to the edge's own weights. \<^verbatim>\<open>torch.max(F.softmax(alpha))\<close>
  is a computation of the tensor library in floating point and is the parameter
  \<open>post_softmax_max\<close>. \<^verbatim>\<open>torch.min\<close> raises RuntimeError for a tensor without entries.
\<close>

definition largest_post_softmax_weight ::
  "(weight list \<Rightarrow> real) \<Rightarrow> EdgeData \<Rightarrow> error + (real \<times> EdgeData)"
where
  "largest_post_softmax_weight post_softmax_max edge_data =
     (case alpha edge_data of
        None \<Rightarrow> Inl AttributeError
      | Some a \<Rightarrow>
          if a = [] then Inl RuntimeError
          else if length a < 2 then Inl IndexError
          else
            let a' = a[1 := wsub (torch_min a) (1 / 1000)]
            in Inr (post_softmax_max a', edge_data\<lparr>alpha := Some a'\<rparr>))"

text \<open>\<^verbatim>\<open>sorted\<close> computes the key of every element once, in the order of the list.\<close>

fun sort_keys ::
  "(weight list \<Rightarrow> real) \<Rightarrow> in_edges \<Rightarrow> error + (real \<times> nat \<times> EdgeData) list"
where
  "sort_keys post_softmax_max [] = Inr []"
| "sort_keys post_softmax_max ((v, d) # es) =
     (case largest_post_softmax_weight post_softmax_max d of
        Inl e \<Rightarrow> Inl e
      | Inr (s, d') \<Rightarrow>
          (case sort_keys post_softmax_max es of
             Inl e \<Rightarrow> Inl e
           | Inr kes \<Rightarrow> Inr ((s, v, d') # kes)))"

text \<open>
  The first loop of the discrete case (lines 435-437): \<^verbatim>\<open>data.op.pop(1)\<close> where the
  second candidate is the Zero primitive.
\<close>

fun pop_zero_op :: "in_edges \<Rightarrow> error + in_edges" where
  "pop_zero_op [] = Inr []"
| "pop_zero_op ((v, d) # es) =
     (case op d of
        None \<Rightarrow> Inl AttributeError
      | Some (OpSingle p) \<Rightarrow>
          (case pop_zero_op es of Inl e \<Rightarrow> Inl e | Inr es' \<Rightarrow> Inr ((v, d) # es'))
      | Some (OpList ps) \<Rightarrow>
          if length ps < 2 then Inl IndexError
          else
            (case pop_zero_op es of
               Inl e \<Rightarrow> Inl e
             | Inr es' \<Rightarrow>
                 if ps ! 1 = ''Zero''
                 then Inr ((v, d\<lparr>op := Some (OpList (take 1 ps @ drop 2 ps))\<rparr>) # es')
                 else Inr ((v, d) # es')))"

text \<open>
  The last loop of the discrete case (lines 441-442) runs \<open>n\<close> times; its \<open>i\<close>-th
  iteration flags the edge at index \<open>randint i\<close>, the \<open>i\<close>-th outcome of
  \<^verbatim>\<open>random.randint(0, len(in_edges) - 1)\<close>. The list is not shortened by a deletion.
\<close>

fun delete_random :: "(nat \<Rightarrow> nat) \<Rightarrow> nat \<Rightarrow> nat \<Rightarrow> in_edges \<Rightarrow> error + in_edges" where
  "delete_random randint i 0 es = Inr es"
| "delete_random randint i (Suc n) es =
     (let j = randint i in
      if j < length es
      then delete_random randint (Suc i) n (es[j := (fst (es ! j), delete (snd (es ! j)))])
      else Inl IndexError)"

text \<open>
  The function itself. Its arguments \<^verbatim>\<open>node\<close> and \<^verbatim>\<open>out_edges\<close> are not used by the
  source. The result is the list \<^verbatim>\<open>in_edges\<close> with the edge data as the call leaves it.
\<close>

definition truncate_input_edges ::
  "(weight list \<Rightarrow> real) \<Rightarrow> (nat \<Rightarrow> nat) \<Rightarrow> in_edges \<Rightarrow> error + in_edges"
where
  "truncate_input_edges post_softmax_max randint in_edges =
     (let k = 2 in
      if k \<le> length in_edges then
        if list_ex (\<lambda>(v, e). has_alpha e \<or> is_finalized e) in_edges then
          case mask_zero_op in_edges of
            Inl e \<Rightarrow> Inl e
          | Inr (True, es) \<Rightarrow> Inr es
          | Inr (False, es) \<Rightarrow>
              (case sort_keys post_softmax_max es of
                 Inl e \<Rightarrow> Inl e
               | Inr kes \<Rightarrow>
                   let sorted_edge_ids = sort_key (\<lambda>(s, e). - s) kes;
                       keep_edges = map (\<lambda>(s, e). fst e) (take k sorted_edge_ids)
                   in Inr (map (\<lambda>(edge_id, edge_data).
                                  if edge_id \<notin> set keep_edges
                                  then (edge_id, delete edge_data)
                                  else (edge_id, edge_data))
                               (map snd kes)))
        else
          case pop_zero_op in_edges of
            Inl e \<Rightarrow> Inl e
          | Inr es \<Rightarrow>
              if list_ex (\<lambda>(v, e). is_finalized e) es then Inr es
              else delete_random randint 0 (length es - k) es
      else Inr in_edges)"

subsection \<open>The cell that the function is applied to (graph.py, lines 90-119)\<close>

text \<open>
  The edges of a cell in the order in which \<^verbatim>\<open>__init__\<close> adds them. The second component
  says whether the edge is created with \<^verbatim>\<open>EdgeData().finalize()\<close>: these are the four edges
  into the output node 7. The reduction cell is a copy of the normal cell.
\<close>

definition cell_topology :: "((nat \<times> nat) \<times> bool) list" where
  "cell_topology =
     map (\<lambda>i. ((1, i), False)) [3..<7] @ map (\<lambda>i. ((2, i), False)) [3..<7]
     @ [((3, 4), False), ((3, 5), False), ((3, 6), False)]
     @ [((4, 5), False), ((4, 6), False)]
     @ [((5, 6), False)]
     @ map (\<lambda>i. ((i, 7), True)) [3..<7]"

text \<open>A cell in some state: its edges, each with the data it carries.\<close>

type_synonym cell = "((nat \<times> nat) \<times> EdgeData) list"

text \<open>
  Modelled from the spec: \<^verbatim>\<open>EdgeData.finalize()\<close> is not among the source files. It sets the
  finalization flag of the edge, which is immutable once set, and no other edge of a cell
  is ever finalized; so in every state of a cell the finalized edges are the ones that
  were created finalized, whatever the other attributes of the edges have become.
\<close>

definition is_cell :: "cell \<Rightarrow> bool" where
  "is_cell c =
     list_all2 (\<lambda>(e, created_final) (e', d). e' = e \<and> is_finalized d = created_final)
       cell_topology c"

text \<open>The incoming edges of a node, each with its source node.\<close>

definition in_edges_of :: "cell \<Rightarrow> nat \<Rightarrow> in_edges" where
  "in_edges_of c node = map (\<lambda>((u, v), d). (u, d)) (filter (\<lambda>((u, v), d). v = node) c)"

subsection \<open>Notions for stating what the function leaves behind\<close>

text \<open>
  The post-softmax maximum weight of an edge, read from the weights the edge carries; an
  edge without weights has none, and 0 stands for it.
\<close>

definition edge_score :: "(weight list \<Rightarrow> real) \<Rightarrow> nat \<times> EdgeData \<Rightarrow> real" where
  "edge_score post_softmax_max e =
     (case alpha (snd e) of None \<Rightarrow> 0 | Some a \<Rightarrow> post_softmax_max a)"

text \<open>An edge whose weight of the second candidate, the Zero primitive, is minus infinity.\<close>

definition zero_masked :: "EdgeData \<Rightarrow> EdgeData" where
  "zero_masked d = d\<lparr>alpha := map_option (\<lambda>a. a[1 := NegInf]) (alpha d)\<rparr>"

text \<open>
  An edge after a one-shot truncation, compared with the edge before it: the same source
  node, the Zero weight masked, and either flagged for deletion or not; nothing else is
  different.
\<close>

definition masked_then_flagged :: "nat \<times> EdgeData \<Rightarrow> nat \<times> EdgeData \<Rightarrow> bool" where
  "masked_then_flagged e e' =
     (fst e' = fst e
      \<and> (snd e' = zero_masked (snd e) \<or> snd e' = delete (zero_masked (snd e))))"

text \<open>Lines 430-432 for one edge: it is flagged unless its source node is among the kept.\<close>

definition flag_unless_kept :: "nat set \<Rightarrow> nat \<times> EdgeData \<Rightarrow> nat \<times> EdgeData" where
  "flag_unless_kept keep e = (if fst e \<notin> keep then (fst e, delete (snd e)) else e)"

text \<open>The source nodes of the incoming edges that are left after a call that returned.\<close>

definition surviving_sources :: "error + in_edges \<Rightarrow> error + nat list" where
  "surviving_sources res = map_sum id (\<lambda>es. map fst (remaining_edges es)) res"

subsection \<open>Concrete edges for evaluation\<close>

definition primitives :: "string list" where
  "primitives = [''Identity'', ''Zero'', ''MaxPool'', ''AvgPool'',
                 ''SepConv'', ''SepConv'', ''DilConv'', ''DilConv'']"

definition discrete_edge :: EdgeData where
  "discrete_edge = \<lparr>alpha = None, final = None, op = Some (OpList primitives), deleted = False\<rparr>"

definition oneshot_edge :: "real \<Rightarrow> EdgeData" where
  "oneshot_edge x =
     \<lparr>alpha = Some [Fin x, Fin 0, Fin 0], final = None, op = Some (OpList primitives),
      deleted = False\<rparr>"

definition finalized_edge :: EdgeData where
  "finalized_edge = \<lparr>alpha = None, final = Some True, op = None, deleted = False\<rparr>"

definition oneshot_in_edges :: in_edges where
  "oneshot_in_edges =
     [(1, oneshot_edge 1), (2, oneshot_edge 3), (3, oneshot_edge 3), (4, oneshot_edge 2)]"

text \<open>A cell whose edges between the inner nodes all carry the same weights.\<close>

definition example_cell :: cell where
  "example_cell =
     map (\<lambda>(e, created_final). (e, if created_final then finalized_edge else oneshot_edge 1))
       cell_topology"

text \<open>An oracle whose every draw is index 0, and a score that reads the first weight.\<close>

definition always_zero :: "nat \<Rightarrow> nat" where
  "always_zero i = 0"

fun first_weight :: "weight list \<Rightarrow> real" where
  "first_weight (Fin x # ws) = x"
| "first_weight ws = 0"

section \<open>NasBench301SearchSpace.sample_random_architecture (graph.py, lines 468-491)\<close>

definition NUM_VERTICES :: nat where
  "NUM_VERTICES = 4"

definition NUM_OPS :: nat where
  "NUM_OPS = 7"

text \<open>
  The random generator of the numerical library. Its state is the sequence of raw numbers
  that it will produce, \<open>rng\<close>, and the position of the next one; every call of
  \<^verbatim>\<open>np.random.choice\<close> reads from that position on and moves it.
\<close>

type_synonym rng = "nat \<Rightarrow> nat"

text \<open>
  \<^verbatim>\<open>np.random.choice(a, size)\<close>, with replacement: each element of the result is a candidate
  of \<open>a\<close>, picked by one raw number.
\<close>

fun choice_with_replacement :: "nat list \<Rightarrow> nat \<Rightarrow> rng \<Rightarrow> nat \<Rightarrow> nat list" where
  "choice_with_replacement a 0 rng p = []"
| "choice_with_replacement a (Suc k) rng p =
     a ! (rng p mod length a) # choice_with_replacement a k rng (Suc p)"

text \<open>
  \<^verbatim>\<open>np.random.choice(a, size, replace=False)\<close>: a candidate that was picked is taken out of
  the candidates for the elements that follow.
\<close>

fun choice_without_replacement :: "nat list \<Rightarrow> nat \<Rightarrow> rng \<Rightarrow> nat \<Rightarrow> nat list" where
  "choice_without_replacement a 0 rng p = []"
| "choice_without_replacement a (Suc k) rng p =
     (let j = rng p mod length a
      in a ! j # choice_without_replacement (take j a @ drop (Suc j) a) k rng (Suc p))"

text \<open>
  The call itself: it raises ValueError for an empty \<open>a\<close> (unless nothing is asked for)
  and for a sample without replacement that is larger than \<open>a\<close>. The result is the array
  and the position of the generator after the call.
\<close>

definition np_random_choice ::
  "nat list \<Rightarrow> nat \<Rightarrow> bool \<Rightarrow> rng \<Rightarrow> nat \<Rightarrow> error + (nat list \<times> nat)"
where
  "np_random_choice a k replace rng p =
     (if a = [] \<and> 0 < k then Inl ValueError
      else if \<not> replace \<and> length a < k then Inl ValueError
      else if replace then Inr (choice_with_replacement a k rng p, p + k)
      else Inr (choice_without_replacement a k rng p, p + k))"

text \<open>The compact encoding: the pairs of the normal cell and those of the reduction cell.\<close>

type_synonym compact_encoding = "(nat \<times> nat) list \<times> (nat \<times> nat) list"

text \<open>
  The body of the loop for vertex \<open>i\<close> (lines 479-489), on the encoding built so far and
  the position of the generator.
\<close>

definition sample_vertex ::
  "rng \<Rightarrow> compact_encoding \<times> nat \<Rightarrow> nat \<Rightarrow> error + (compact_encoding \<times> nat)"
where
  "sample_vertex rng st i =
     (case np_random_choice [0..<NUM_OPS] NUM_VERTICES True rng (snd st) of
        Inl e \<Rightarrow> Inl e
      | Inr (ops, p1) \<Rightarrow>
          (case np_random_choice [0..<i + 2] 2 False rng p1 of
             Inl e \<Rightarrow> Inl e
           | Inr (nodes_in_normal, p2) \<Rightarrow>
               (case np_random_choice [0..<i + 2] 2 False rng p2 of
                  Inl e \<Rightarrow> Inl e
                | Inr (nodes_in_reduce, p3) \<Rightarrow>
                    Inr ((fst (fst st) @ [(nodes_in_normal ! 0, ops ! 0),
                                         (nodes_in_normal ! 1, ops ! 1)],
                          snd (fst st) @ [(nodes_in_reduce ! 0, ops ! 2),
                                         (nodes_in_reduce ! 1, ops ! 3)]),
                         p3))))"

text \<open>The loop \<^verbatim>\<open>for i in range(NUM_VERTICES)\<close> (line 478).\<close>

fun sample_vertices ::
  "rng \<Rightarrow> nat list \<Rightarrow> compact_encoding \<times> nat \<Rightarrow> error + (compact_encoding \<times> nat)"
where
  "sample_vertices rng [] st = Inr st"
| "sample_vertices rng (i # vertices) st =
     (case sample_vertex rng st i of
        Inl e \<Rightarrow> Inl e
      | Inr st' \<Rightarrow> sample_vertices rng vertices st')"

text \<open>
  The function returns the compact encoding that \<^verbatim>\<open>set_compact\<close> installs. With
  \<^verbatim>\<open>load_labeled\<close> set, the source hands over to \<^verbatim>\<open>sample_random_labeled_architecture\<close>,
  whose outcome is the argument \<open>labeled\<close>.
\<close>

definition sample_random_architecture ::
  "bool \<Rightarrow> error + compact_encoding \<Rightarrow> rng \<Rightarrow> error + compact_encoding"
where
  "sample_random_architecture load_labeled labeled rng =
     (if load_labeled then labeled
      else
        case sample_vertices rng [0..<NUM_VERTICES] (([], []), 0) of
          Inl e \<Rightarrow> Inl e
        | Inr (enc, p) \<Rightarrow> Inr enc)"

text \<open>The two inputs of intermediate node \<open>i\<close> in the encoding of one cell type.\<close>

definition inputs_of :: "(nat \<times> nat) list \<Rightarrow> nat \<Rightarrow> nat \<times> nat" where
  "inputs_of cell i = (fst (cell ! (2 * i)), fst (cell ! (2 * i + 1)))"

text \<open>A concrete generator: its raw numbers are 0, 1, 2, and so on.\<close>

definition counting_rng :: rng where
  "counting_rng p = p"

section \<open>SuccessiveHalving (optimizer.py)\<close>

text \<open>
  A population entry is a \<^verbatim>\<open>torch.nn.Module\<close> with the attributes \<^verbatim>\<open>arch\<close>, \<^verbatim>\<open>accuracy\<close>
  and, for the time budget, \<^verbatim>\<open>time\<close>. The population and the history hold references to
  the same objects, and \<^verbatim>\<open>new_epoch\<close> writes to an object that both may hold; so the
  objects live in a store (the list \<open>models\<close>, a reference is an index into it) and the
  two lists hold references.
\<close>

record 'a model =
  arch :: 'a
  accuracy :: real
  time :: "real option"

text \<open>
  The attributes of the optimizer that \<^verbatim>\<open>new_epoch\<close> reads or writes. \<^verbatim>\<open>end\<close> is the
  field \<open>end_flag\<close>. The statistics map is keyed by the hash of the entry, which is its
  identity, and by the name of the metric. The fidelity and the two counters are
  integers; \<^verbatim>\<open>eta\<close> and \<^verbatim>\<open>budget_max\<close> are numbers of the configuration.
\<close>

record 'a optimizer =
  budget_max :: real
  performance_metric :: Metric
  end_flag :: bool
  fidelity :: int
  number_archs :: int
  eta :: real
  budget_type :: string
  fidelity_counter :: int
  sampled_archs :: "nat list"
  history :: "nat list"
  optimizer_stats :: "nat \<Rightarrow> string \<Rightarrow> real list"
  models :: "'a model list"

text \<open>
  \<^verbatim>\<open>arch.query(metric, self.dataset, epoch=..., dataset_api=self.dataset_api)\<close> of the
  search space that the optimizer was adapted to: a parameter, which may raise.
\<close>

type_synonym 'a arch_query = "'a \<Rightarrow> Metric \<Rightarrow> int \<Rightarrow> error + real"

text \<open>The position that \<^verbatim>\<open>xs[i]\<close> reads: a negative index counts from the end.\<close>

definition py_index :: "'b list \<Rightarrow> int \<Rightarrow> error + nat" where
  "py_index xs i =
     (if 0 \<le> i \<and> i < int (length xs) then Inr (nat i)
      else if i < 0 \<and> - int (length xs) \<le> i then Inr (nat (int (length xs) + i))
      else Inl IndexError)"

text \<open>The slice \<^verbatim>\<open>xs[0:m]\<close>: a negative bound counts from the end.\<close>

definition py_slice :: "'b list \<Rightarrow> int \<Rightarrow> 'b list" where
  "py_slice xs m = (if m < 0 then take (nat (int (length xs) + m)) xs else take (nat m) xs)"

text \<open>
  Lines 74-79. The result is the architecture to query and, for an entry that is in the
  population already, its position there. \<open>sampled\<close> is the clone of the search space
  after \<^verbatim>\<open>sample_random_architecture\<close>.
\<close>

definition choose_model :: "'a \<Rightarrow> 'a optimizer \<Rightarrow> error + (nat option \<times> 'a)" where
  "choose_model sampled s =
     (if int (length (sampled_archs s)) < number_archs s then Inr (None, sampled)
      else
        case py_index (sampled_archs s) (fidelity_counter s) of
          Inl e \<Rightarrow> Inl e
        | Inr i \<Rightarrow> Inr (Some i, arch (models s ! (sampled_archs s ! i))))"

text \<open>
  Lines 84-103: the accuracy, the value of the attribute \<^verbatim>\<open>time\<close> if it is written, and
  the budget. Both queries ask for \<^verbatim>\<open>self.performance_metric\<close>.
\<close>

definition measure_model ::
  "'a arch_query \<Rightarrow> 'a \<Rightarrow> 'a optimizer \<Rightarrow> error + (real \<times> real option \<times> real)"
where
  "measure_model query_arch a s =
     (case query_arch a (performance_metric s) (fidelity s) of
        Inl e \<Rightarrow> Inl e
      | Inr acc \<Rightarrow>
          if budget_type s = ''time'' then
            (case query_arch a (performance_metric s) (fidelity s) of
               Inl e \<Rightarrow> Inl e
             | Inr t \<Rightarrow> Inr (acc, Some t, t))
          else if \<not> (budget_type s = ''epoch'') then Inl NameError
          else Inr (acc, None, 1))"

text \<open>
  Lines 106-109 together with the attribute writes of lines 84 and 95: a new entry is
  allocated and appended, an entry of the population is written to in place and assigned
  back to its position. The result carries the reference of the entry.
\<close>

definition store_model ::
  "nat option \<Rightarrow> 'a \<Rightarrow> real \<Rightarrow> real option \<Rightarrow> 'a optimizer \<Rightarrow> nat \<times> 'a optimizer"
where
  "store_model position a acc t s =
     (case position of
        None \<Rightarrow>
          (length (models s),
           s\<lparr>models := models s @ [\<lparr>arch = a, accuracy = acc, time = t\<rparr>],
             sampled_archs := sampled_archs s @ [length (models s)]\<rparr>)
      | Some i \<Rightarrow>
          (let r = sampled_archs s ! i; old = models s ! r
           in (r,
               s\<lparr>models := (models s)[r := old\<lparr>accuracy := acc,
                                               time := (case t of None \<Rightarrow> time old
                                                        | Some x \<Rightarrow> Some x)\<rparr>],
                 sampled_archs := (sampled_archs s)[i := r]\<rparr>)))"

text \<open>One iteration of the loop of \<^verbatim>\<open>update_optimizer_stats\<close> (lines 186-193).\<close>

definition record_metric ::
  "'a arch_query \<Rightarrow> 'a \<Rightarrow> nat \<Rightarrow> int \<Rightarrow> string \<times> Metric
     \<Rightarrow> (nat \<Rightarrow> string \<Rightarrow> real list) \<Rightarrow> error + (nat \<Rightarrow> string \<Rightarrow> real list)"
where
  "record_metric query_arch a arch_hash epoch entry stats =
     (case query_arch a (snd entry) epoch of
        Inl e \<Rightarrow> Inl e
      | Inr metric_value \<Rightarrow>
          Inr (stats(arch_hash := (stats arch_hash)
                 (fst entry := stats arch_hash (fst entry) @ [metric_value]))))"

fun record_metrics ::
  "'a arch_query \<Rightarrow> 'a \<Rightarrow> nat \<Rightarrow> int \<Rightarrow> (string \<times> Metric) list
     \<Rightarrow> (nat \<Rightarrow> string \<Rightarrow> real list) \<Rightarrow> error + (nat \<Rightarrow> string \<Rightarrow> real list)"
where
  "record_metrics query_arch a arch_hash epoch [] stats = Inr stats"
| "record_metrics query_arch a arch_hash epoch (entry # entries) stats =
     (case record_metric query_arch a arch_hash epoch entry stats of
        Inl e \<Rightarrow> Inl e
      | Inr stats' \<Rightarrow> record_metrics query_arch a arch_hash epoch entries stats')"

definition metrics :: "(string \<times> Metric) list" where
  "metrics = [(''train_acc'', TRAIN_ACCURACY), (''val_acc'', VAL_ACCURACY),
              (''test_acc'', TEST_ACCURACY), (''train_time'', TRAIN_TIME)]"

text \<open>Lines 173-194.\<close>

definition update_optimizer_stats :: "'a arch_query \<Rightarrow> 'a optimizer \<Rightarrow> error + 'a optimizer" where
  "update_optimizer_stats query_arch s =
     (case py_index (sampled_archs s) (fidelity_counter s) of
        Inl e \<Rightarrow> Inl e
      | Inr i \<Rightarrow>
          (let arch_hash = sampled_archs s ! i; a = arch (models s ! arch_hash)
           in case record_metrics query_arch a arch_hash (fidelity s) metrics (optimizer_stats s) of
                Inl e \<Rightarrow> Inl e
              | Inr stats \<Rightarrow>
                  Inr (s\<lparr>optimizer_stats := stats(arch_hash := (stats arch_hash)
                          (''fidelity'' := stats arch_hash ''fidelity'' @ [of_int (fidelity s)]))\<rparr>)))"

text \<open>
  The loop of \<^verbatim>\<open>_update_history\<close> (lines 140-143): the first entry with a smaller accuracy
  is replaced, and the loop ends there.
\<close>

fun replace_first :: "(nat \<Rightarrow> real) \<Rightarrow> nat list \<Rightarrow> nat \<Rightarrow> nat list" where
  "replace_first acc [] child = []"
| "replace_first acc (p # ps) child =
     (if acc child > acc p then child # ps else p # replace_first acc ps child)"

text \<open>Lines 136-143; the leading underscore of the name is dropped.\<close>

definition update_history :: "'a model list \<Rightarrow> nat list \<Rightarrow> nat \<Rightarrow> nat list" where
  "update_history ms hist child =
     (if length hist < 100 then hist @ [child]
      else replace_first (\<lambda>r. accuracy (ms ! r)) hist child)"

text \<open>
  Lines 114-126. \<^verbatim>\<open>sort(key=..., reverse=True)\<close> is a stable sort by descending accuracy.
  The division by \<^verbatim>\<open>eta\<close> is reached only in the second test and raises for 0.
\<close>

definition finish_round :: "'a optimizer \<Rightarrow> error + 'a optimizer" where
  "finish_round s =
     (if fidelity_counter s = number_archs s then
        let new_fidelity = \<lfloor>eta s * of_int (fidelity s)\<rfloor>;
            sorted_archs = sort_key (\<lambda>r. - accuracy (models s ! r)) (sampled_archs s);
            reset = (\<lambda>s' archs. s'\<lparr>fidelity := new_fidelity, sampled_archs := archs,
                                    number_archs := int (length archs), fidelity_counter := 0\<rparr>)
        in
          if of_int new_fidelity > budget_max s then Inr (reset (s\<lparr>end_flag := True\<rparr>) sorted_archs)
          else if eta s = 0 then Inl ZeroDivisionError
          else if \<lfloor>of_int (number_archs s) / eta s\<rfloor> \<noteq> 0 then
            Inr (reset s (py_slice sorted_archs \<lfloor>of_int (number_archs s) / eta s\<rfloor>))
          else
            (case sorted_archs of
               [] \<Rightarrow> Inl IndexError
             | best # rest \<Rightarrow> Inr (reset (s\<lparr>end_flag := True\<rparr>) [best]))
      else Inr s)"

text \<open>
  Lines 74-113: the entry is chosen, measured, stored, recorded in the statistics and in
  the history, and the position counter is advanced. The result is the budget of the
  step and the optimizer as the test of line 114 finds it.
\<close>

definition evaluate_and_record ::
  "'a arch_query \<Rightarrow> 'a \<Rightarrow> 'a optimizer \<Rightarrow> error + (real \<times> 'a optimizer)"
where
  "evaluate_and_record query_arch sampled s =
     (case choose_model sampled s of
        Inl e \<Rightarrow> Inl e
      | Inr (position, a) \<Rightarrow>
          (case measure_model query_arch a s of
             Inl e \<Rightarrow> Inl e
           | Inr (acc, t, budget) \<Rightarrow>
               (let (child, s1) = store_model position a acc t s
                in case update_optimizer_stats query_arch s1 of
                     Inl e \<Rightarrow> Inl e
                   | Inr s2 \<Rightarrow>
                       (let s3 = s2\<lparr>fidelity_counter := fidelity_counter s2 + 1\<rparr>
                        in Inr (budget,
                                s3\<lparr>history := update_history (models s3) (history s3) child\<rparr>)))))"

text \<open>Lines 68-128: the budget of the step and the optimizer after it.\<close>

definition new_epoch ::
  "'a arch_query \<Rightarrow> 'a \<Rightarrow> 'a optimizer \<Rightarrow> error + (real \<times> 'a optimizer)"
where
  "new_epoch query_arch sampled s =
     (case evaluate_and_record query_arch sampled s of
        Inl e \<Rightarrow> Inl e
      | Inr (budget, s4) \<Rightarrow>
          (case finish_round s4 of
             Inl e \<Rightarrow> Inl e
           | Inr s5 \<Rightarrow> Inr (budget, s5)))"

text \<open>The optimizer as \<^verbatim>\<open>__init__\<close> leaves it (lines 44-58).\<close>

definition init ::
  "real \<Rightarrow> int \<Rightarrow> int \<Rightarrow> real \<Rightarrow> string \<Rightarrow> 'a optimizer"
where
  "init config_budget_max config_min_fidelity config_number_archs config_eta config_budget_type =
     \<lparr>budget_max = config_budget_max, performance_metric = VAL_ACCURACY, end_flag = False,
      fidelity = config_min_fidelity, number_archs = config_number_archs, eta = config_eta,
      budget_type = config_budget_type, fidelity_counter = 0, sampled_archs = [],
      history = [], optimizer_stats = (\<lambda>h name. []), models = []\<rparr>"

subsection \<open>Successive calls\<close>

text \<open>
  \<open>k\<close> successive calls of \<^verbatim>\<open>new_epoch\<close>. The architecture that a call samples is given
  by \<open>sampler\<close>, indexed by the number of entries stored so far. A round is one pass
  over the population: as many calls as \<^verbatim>\<open>number_archs\<close> says when it starts.
\<close>

fun run :: "'a arch_query \<Rightarrow> (nat \<Rightarrow> 'a) \<Rightarrow> nat \<Rightarrow> 'a optimizer \<Rightarrow> error + 'a optimizer" where
  "run query_arch sampler 0 s = Inr s"
| "run query_arch sampler (Suc k) s =
     (case new_epoch query_arch (sampler (length (models s))) s of
        Inl e \<Rightarrow> Inl e
      | Inr (budget, s') \<Rightarrow> run query_arch sampler k s')"

definition run_round :: "'a arch_query \<Rightarrow> (nat \<Rightarrow> 'a) \<Rightarrow> 'a optimizer \<Rightarrow> error + 'a optimizer" where
  "run_round query_arch sampler s = run query_arch sampler (nat (number_archs s)) s"

fun run_rounds ::
  "'a arch_query \<Rightarrow> (nat \<Rightarrow> 'a) \<Rightarrow> nat \<Rightarrow> 'a optimizer \<Rightarrow> error + 'a optimizer"
where
  "run_rounds query_arch sampler 0 s = Inr s"
| "run_rounds query_arch sampler (Suc r) s =
     (case run_round query_arch sampler s of
        Inl e \<Rightarrow> Inl e
      | Inr s' \<Rightarrow> run_rounds query_arch sampler r s')"

text \<open>
  An optimizer between two rounds, with promotion factor \<open>e\<close> and budget \<open>b\<close>: the
  counter is at 0 and the population is either not sampled yet or as large as
  \<^verbatim>\<open>number_archs\<close> says.
\<close>

definition round_start :: "int \<Rightarrow> real \<Rightarrow> 'a optimizer \<Rightarrow> bool" where
  "round_start e b s =
     (fidelity_counter s = 0 \<and> 1 \<le> number_archs s
      \<and> (sampled_archs s = [] \<or> int (length (sampled_archs s)) = number_archs s)
      \<and> (budget_type s = ''time'' \<or> budget_type s = ''epoch'')
      \<and> eta s = of_int e \<and> budget_max s = b)"

text \<open>A query that never raises.\<close>

definition total_query :: "'a arch_query \<Rightarrow> bool" where
  "total_query query_arch = (\<forall>a metric epoch. \<exists>v. query_arch a metric epoch = Inr v)"

text \<open>What a caller observes of a step or of a run.\<close>

definition budget_of :: "error + (real \<times> 'a optimizer) \<Rightarrow> error + real" where
  "budget_of res = map_sum id fst res"

definition population_size :: "error + 'a optimizer \<Rightarrow> error + nat" where
  "population_size res = map_sum id (\<lambda>s. length (sampled_archs s)) res"

definition end_of :: "error + 'a optimizer \<Rightarrow> error + bool" where
  "end_of res = map_sum id end_flag res"

subsection \<open>Concrete optimizers for evaluation\<close>

text \<open>Two stored entries, of accuracy 1 and 2, and a full history that holds the first.\<close>

definition two_models :: "unit model list" where
  "two_models = [\<lparr>arch = (), accuracy = 1, time = None\<rparr>, \<lparr>arch = (), accuracy = 2, time = None\<rparr>]"

definition full_history :: "nat list" where
  "full_history = replicate 100 0"

text \<open>
  The query of the NAS-Bench-301 search space with the constant benchmark handle, and a
  query that answers every call with 90.
\<close>

definition nb301_query :: "unit arch_query" where
  "nb301_query a metric epoch = query example_genotype a (Some metric) epoch (Some example_api)"

definition constant_query :: "unit arch_query" where
  "constant_query a metric epoch = Inr 90"

definition unit_sampler :: "nat \<Rightarrow> unit" where
  "unit_sampler i = ()"

text \<open>
  A query that answers with the architecture itself, an architecture being a number here,
  and an optimizer in the middle of its first round: a bracket of 4, three architectures
  of accuracy 1, 3 and 2 evaluated, budget 8 and promotion factor 2.
\<close>

definition accuracy_query :: "nat arch_query" where
  "accuracy_query a metric epoch = Inr (of_nat a)"

definition three_evaluated :: "nat optimizer" where
  "three_evaluated =
     \<lparr>budget_max = 8, performance_metric = VAL_ACCURACY, end_flag = False, fidelity = 1,
      number_archs = 4, eta = 2, budget_type = ''epoch'', fidelity_counter = 3,
      sampled_archs = [0, 1, 2], history = [0, 1, 2], optimizer_stats = (\<lambda>h name. []),
      models = [\<lparr>arch = 1, accuracy = 1, time = None\<rparr>,
                \<lparr>arch = 3, accuracy = 3, time = None\<rparr>,
                \<lparr>arch = 2, accuracy = 2, time = None\<rparr>]\<rparr>"

definition population_of :: "error + (real \<times> 'a optimizer) \<Rightarrow> error + nat list" where
  "population_of res = map_sum id (\<lambda>(budget, s). sampled_archs s) res"

section \<open>Properties of query\<close>

text \<open>
  C5, as stated: the assertion passes exactly for the epochs -1 and 100. The epoch 0 is
  neither of the two, and the call is still answered: \<^verbatim>\<open>not epoch\<close> holds for 0.
\<close>

theorem query_epoch_counterexample:
  "query example_genotype () (Some VAL_ACCURACY) 0 (Some example_api) = Inr 90
   \<and> (0::int) \<noteq> - 1 \<and> (0::int) \<noteq> 100"
  by (simp add: query_def epoch_assertion_def example_api_def)

text \<open>
  C5, amended: with a benchmark handle supplied, query raises the assertion failure
  exactly when the epoch is none of 0, -1 and 100; for these three epochs the assertion
  passes, whatever the metric.
\<close>

theorem query_epoch_assertion:
  "(query conv self metric epoch (Some api) = Inl AssertionError)
     = (epoch \<noteq> 0 \<and> epoch \<noteq> - 1 \<and> epoch \<noteq> 100)"
  by (simp add: query_def epoch_assertion_def Let_def)

theorem query_epoch_assertion_witness:
  "query example_genotype () (Some TRAIN_TIME) 50 (Some example_api) = Inl AssertionError
   \<and> query example_genotype () (Some TRAIN_TIME) 100 (Some example_api) \<noteq> Inl AssertionError"
  using query_epoch_assertion [of example_genotype "()" "Some TRAIN_TIME" 50 example_api]
        query_epoch_assertion [of example_genotype "()" "Some TRAIN_TIME" 100 example_api]
  by simp

text \<open>
  C6: with a benchmark handle and an epoch that passes the assertion, every metric other
  than validation accuracy and train time is answered with the sentinel -1, not with an
  error; without a handle the call fails with NotImplementedError for every metric and
  epoch.
\<close>

theorem query_sentinel_and_missing_handle:
  "(epoch_assertion epoch \<longrightarrow> metric \<noteq> Some VAL_ACCURACY \<longrightarrow> metric \<noteq> Some TRAIN_TIME
      \<longrightarrow> query conv self metric epoch (Some api) = Inr (- 1))
   \<and> query conv self metric epoch None = Inl NotImplementedError"
  by (simp add: query_def Let_def)

theorem query_sentinel_and_missing_handle_witness:
  "epoch_assertion 100 \<and> epoch_assertion (- 1)
   \<and> query example_genotype () (Some TEST_ACCURACY) 100 (Some example_api) = Inr (- 1)
   \<and> query example_genotype () None (- 1) (Some example_api) = Inr (- 1)
   \<and> query example_genotype () (Some VAL_ACCURACY) 100 None = Inl NotImplementedError"
  using query_sentinel_and_missing_handle [of 100 "Some TEST_ACCURACY" example_genotype "()" example_api]
        query_sentinel_and_missing_handle [of "- 1" None example_genotype "()" example_api]
        query_sentinel_and_missing_handle [of 100 "Some VAL_ACCURACY" example_genotype "()" example_api]
  by (simp add: epoch_assertion_def)

section \<open>Properties of _truncate_input_edges\<close>

subsection \<open>Nodes with a finalized incoming edge\<close>

lemma cell_topology_final:
  "\<forall>(e, created_final)\<in>set cell_topology. created_final = (snd e = 7)"
  by (simp add: cell_topology_def upt_rec)

lemma cell_final_iff:
  assumes c: "is_cell c" and mem: "((u, v), d) \<in> set c"
  shows "is_finalized d = (v = 7)"
proof -
  from mem obtain i where i: "i < length c" "c ! i = ((u, v), d)"
    by (auto simp: in_set_conv_nth)
  from c have len: "length cell_topology = length c"
    and rel: "\<And>k. k < length c \<Longrightarrow>
      (case cell_topology ! k of (e, created_final) \<Rightarrow>
         \<lambda>(e', d). e' = e \<and> is_finalized d = created_final) (c ! k)"
    unfolding is_cell_def by (auto simp: list_all2_conv_all_nth)
  obtain e created_final where t: "cell_topology ! i = (e, created_final)"
    by (cases "cell_topology ! i")
  from rel [OF i(1)] t i(2) have e: "e = (u, v)" and f: "is_finalized d = created_final"
    by simp_all
  have "(e, created_final) \<in> set cell_topology"
    using t i(1) len by (metis nth_mem)
  with cell_topology_final have "created_final = (snd e = 7)" by auto
  with e f show ?thesis by simp
qed

lemma all_finalized_unchanged:
  assumes "list_all (\<lambda>(v, d). is_finalized d) es"
  shows "truncate_input_edges P r es = Inr es"
proof (cases es)
  case Nil
  then show ?thesis by (simp add: truncate_input_edges_def)
next
  case (Cons e rest)
  obtain v d where e: "e = (v, d)" by (cases e)
  with assms Cons have f: "is_finalized d" by simp
  then have "mask_zero_op es = Inr (True, es)"
    using Cons e by simp
  moreover have "list_ex (\<lambda>(v, e). has_alpha e \<or> is_finalized e) es"
    using Cons e f by simp
  ultimately show ?thesis
    by (simp add: truncate_input_edges_def)
qed

text \<open>
  C7: for every node of a cell that has at least one finalized incoming edge, whatever the
  order in which its incoming edges are enumerated, the call returns and leaves the
  incoming edges exactly as they were: no edge is flagged for deletion, no list of
  candidate operations is modified, no architecture weight is altered. In a cell the
  finalized edges are the four edges into the output node, so such a node has finalized
  incoming edges only, and the first test of the loop of lines 424-427 ends the call.
\<close>

theorem truncate_finalized_node_unchanged:
  assumes c: "is_cell c"
    and es: "mset es = mset (in_edges_of c node)"
    and fin: "list_ex (\<lambda>(v, d). is_finalized d) es"
  shows "truncate_input_edges P r es = Inr es"
proof -
  have set_es: "set es = set (in_edges_of c node)"
    using es by (rule mset_eq_setD)
  have src: "is_finalized d = (node = 7)" if "(u, d) \<in> set es" for u d
  proof -
    from that set_es have "((u, node), d) \<in> set c"
      by (auto simp: in_edges_of_def)
    with c show ?thesis by (rule cell_final_iff)
  qed
  from fin obtain u d where "(u, d) \<in> set es" "is_finalized d"
    by (auto simp: list_ex_iff)
  with src have "node = 7" by simp
  with src have "list_all (\<lambda>(v, d). is_finalized d) es"
    by (auto simp: list_all_iff)
  then show ?thesis by (rule all_finalized_unchanged)
qed

theorem truncate_finalized_node_unchanged_witness:
  "is_cell example_cell
   \<and> in_edges_of example_cell 7
       = [(3, finalized_edge), (4, finalized_edge), (5, finalized_edge), (6, finalized_edge)]
   \<and> list_ex (\<lambda>(v, d). is_finalized d) (in_edges_of example_cell 7)
   \<and> truncate_input_edges first_weight always_zero (in_edges_of example_cell 7)
       = Inr (in_edges_of example_cell 7)"
proof -
  have c: "is_cell example_cell"
    by (simp add: is_cell_def example_cell_def cell_topology_def upt_rec is_finalized_def
        finalized_edge_def oneshot_edge_def)
  have ie: "in_edges_of example_cell 7
       = [(3, finalized_edge), (4, finalized_edge), (5, finalized_edge), (6, finalized_edge)]"
    by (simp add: in_edges_of_def example_cell_def cell_topology_def upt_rec)
  have fin: "list_ex (\<lambda>(v, d). is_finalized d) (in_edges_of example_cell 7)"
    by (simp add: ie is_finalized_def finalized_edge_def)
  from truncate_finalized_node_unchanged [OF c refl fin, of first_weight always_zero]
    c ie fin show ?thesis by simp
qed

subsection \<open>Discrete mode\<close>

text \<open>
  C1 at a failing input: a node with four incoming edges that carry candidate lists, no
  weights and no finalization, where both draws of the random index are 0. The second
  draw flags the edge that is flagged already, and three edges survive instead of two.
\<close>

theorem truncate_discrete_repeated_draw:
  "surviving_sources (truncate_input_edges first_weight always_zero
     [(1, discrete_edge), (2, discrete_edge), (3, discrete_edge), (4, discrete_edge)])
   = Inr [2, 3, 4]"
  by code_simp

subsection \<open>One-shot mode\<close>

lemma wmin2_NegInf_right: "wmin2 w NegInf = NegInf"
  by (cases w) simp_all

lemma fold_wmin2_NegInf: "fold wmin2 ws NegInf = NegInf"
  by (induction ws) (simp_all add: wmin2_NegInf_right)

lemma fold_wmin2_mem: "NegInf \<in> set ws \<Longrightarrow> fold wmin2 ws w = NegInf"
  by (induction ws arbitrary: w) (auto simp: fold_wmin2_NegInf)

lemma torch_min_NegInf: "NegInf \<in> set a \<Longrightarrow> torch_min a = NegInf"
proof (cases a)
  case Nil
  then show ?thesis by simp
next
  case (Cons w ws)
  assume "NegInf \<in> set a"
  with Cons show ?thesis
    by (auto simp: fold_wmin2_NegInf fold_wmin2_mem)
qed

lemma largest_post_softmax_weight_masked:
  assumes "alpha d = Some a" "2 \<le> length a" "a ! 1 = NegInf"
  shows "largest_post_softmax_weight P d = Inr (P a, d)"
proof -
  have "NegInf \<in> set a"
    using assms(2,3) by (metis nth_mem less_le_trans one_less_numeral_iff semiring_norm(76))
  then have "a[1 := wsub (torch_min a) (1 / 1000)] = a"
    using assms(3) by (simp add: torch_min_NegInf) (metis list_update_id)
  moreover have "d\<lparr>alpha := Some a\<rparr> = d"
    using assms(1) by simp
  moreover have "a \<noteq> []"
    using assms(2) by auto
  ultimately show ?thesis
    using assms(1,2) by (simp add: largest_post_softmax_weight_def)
qed

lemma mask_zero_op_all:
  "\<forall>(v, d)\<in>set es. \<not> is_finalized d \<and> (\<exists>a. alpha d = Some a \<and> 2 \<le> length a)
     \<Longrightarrow> mask_zero_op es = Inr (False, map (\<lambda>(v, d). (v, zero_masked d)) es)"
  by (induction es) (auto simp: zero_masked_def)

lemma sort_keys_masked:
  "\<forall>(v, d)\<in>set es. \<exists>a. alpha d = Some a \<and> 2 \<le> length a \<and> a ! 1 = NegInf
     \<Longrightarrow> sort_keys P es = Inr (map (\<lambda>e. (edge_score P e, e)) es)"
proof (induction es)
  case Nil
  then show ?case by simp
next
  case (Cons e es)
  obtain v d where e: "e = (v, d)" by (cases e)
  with Cons.prems obtain a where a: "alpha d = Some a" "2 \<le> length a" "a ! 1 = NegInf"
    by auto
  from Cons have rest: "sort_keys P es = Inr (map (\<lambda>e. (edge_score P e, e)) es)"
    by simp
  show ?case
    using e rest largest_post_softmax_weight_masked [OF a, of P] a(1)
    by (simp add: edge_score_def)
qed

lemma insort_key_map:
  "insort_key f (g x) (map g xs) = map g (insort_key (\<lambda>y. f (g y)) x xs)"
  by (induction xs) simp_all

lemma sort_key_map: "sort_key f (map g xs) = map g (sort_key (\<lambda>y. f (g y)) xs)"
  by (induction xs) (simp_all add: insort_key_map)


lemma truncate_one_shot_eq:
  assumes len: "2 \<le> length es"
    and ok: "\<forall>(v, d)\<in>set es. \<not> is_finalized d \<and> (\<exists>a. alpha d = Some a \<and> 2 \<le> length a)"
  shows "truncate_input_edges P r es =
           Inr (map (flag_unless_kept
                      (set (map fst (take 2 (sort_key (\<lambda>e. - edge_score P e)
                                                (map (\<lambda>(v, d). (v, zero_masked d)) es))))))
                    (map (\<lambda>(v, d). (v, zero_masked d)) es))"
proof -
  let ?F = "map (\<lambda>(v, d). (v, zero_masked d)) es"
  let ?g = "\<lambda>e. (edge_score P e, e)"
  from len obtain e0 es0 where es: "es = e0 # es0" by (cases es) auto
  obtain v0 d0 where e0: "e0 = (v0, d0)" by (cases e0)
  have any: "list_ex (\<lambda>(v, e). has_alpha e \<or> is_finalized e) es"
    using ok es e0 by (auto simp: has_alpha_def)
  have m: "mask_zero_op es = Inr (False, ?F)"
    using ok by (rule mask_zero_op_all)
  have "\<forall>(v, d)\<in>set ?F. \<exists>a. alpha d = Some a \<and> 2 \<le> length a \<and> a ! 1 = NegInf"
    using ok by (fastforce simp: zero_masked_def)
  then have k: "sort_keys P ?F = Inr (map ?g ?F)"
    by (rule sort_keys_masked)
  have srt: "sort_key (\<lambda>(s, e). - s) (map ?g ?F) = map ?g (sort_key (\<lambda>e. - edge_score P e) ?F)"
    by (simp add: sort_key_map)
  have keep: "map (\<lambda>(s, e). fst e) (take 2 (map ?g (sort_key (\<lambda>e. - edge_score P e) ?F)))
                = map fst (take 2 (sort_key (\<lambda>e. - edge_score P e) ?F))"
    by (simp add: take_map)
  have mark: "(\<lambda>(edge_id, edge_data). if edge_id \<notin> K then (edge_id, delete edge_data)
                 else (edge_id, edge_data)) = flag_unless_kept K" for K
    by (auto simp: flag_unless_kept_def fun_eq_iff)
  have unkey: "map snd (map ?g ?F) = ?F"
    by (simp add: comp_def)
  show ?thesis
    unfolding truncate_input_edges_def Let_def
    using len any m k by (simp only: if_True sum.case prod.case bool.case srt keep mark unkey)
qed


lemma edge_score_flag [simp]: "edge_score P (flag_unless_kept K e) = edge_score P e"
  by (simp add: flag_unless_kept_def edge_score_def delete_def)

lemma top2_facts:
  assumes dist: "distinct (map fst F)"
    and len: "2 \<le> length F"
    and nodel: "\<forall>e\<in>set F. \<not> deleted (snd e)"
    and S: "S = sort_key f F"
    and T: "T = take 2 S"
  shows "distinct S" "set S = set F" "S = T @ drop 2 S" "length T = 2" "distinct T"
    "set T \<subseteq> set F" "set T \<inter> set (drop 2 S) = {}"
    "\<forall>e\<in>set F. deleted (snd (flag_unless_kept (set (map fst T)) e)) = (e \<notin> set T)"
proof -
  have dF: "distinct F" using dist by (simp add: distinct_map)
  show dS: "distinct S" using dF S by simp
  show sS: "set S = set F" using S by simp
  show app: "S = T @ drop 2 S" using T by simp
  show lT: "length T = 2" using T S len by simp
  show dT: "distinct T" using T dS by simp
  show sub: "set T \<subseteq> set F" using T sS by (metis set_take_subset)
  show disj: "set T \<inter> set (drop 2 S) = {}"
    using dS app by (metis distinct_append)
  have inj: "inj_on fst (set F)" using dist by (simp add: distinct_map)
  have mem: "fst e \<in> set (map fst T) \<longleftrightarrow> e \<in> set T" if "e \<in> set F" for e
  proof
    assume "fst e \<in> set (map fst T)"
    then obtain t where t: "t \<in> set T" "fst t = fst e" by auto
    with sub that inj have "t = e" by (meson inj_onD subsetD)
    with t show "e \<in> set T" by simp
  qed auto
  show "\<forall>e\<in>set F. deleted (snd (flag_unless_kept (set (map fst T)) e)) = (e \<notin> set T)"
    using mem nodel by (auto simp: flag_unless_kept_def delete_def)
qed

lemma top2_count:
  assumes dist: "distinct (map fst F)"
    and len: "2 \<le> length F"
    and nodel: "\<forall>e\<in>set F. \<not> deleted (snd e)"
    and S: "S = sort_key f F"
    and T: "T = take 2 S"
  shows "length (remaining_edges (map (flag_unless_kept (set (map fst T))) F)) = 2"
proof -
  note facts = top2_facts [OF dist len nodel S T]
  have dF: "distinct F" using dist by (simp add: distinct_map)
  have "length (remaining_edges (map (flag_unless_kept (set (map fst T))) F))
          = length (filter (\<lambda>e. \<not> deleted (snd (flag_unless_kept (set (map fst T)) e))) F)"
    by (simp add: remaining_edges_def filter_map comp_def case_prod_unfold)
  also have "\<dots> = length (filter (\<lambda>e. e \<in> set T) F)"
    using facts(8) by (metis (mono_tags, lifting) filter_cong)
  also have "\<dots> = card ({e. e \<in> set T} \<inter> set F)"
    using dF by (rule distinct_length_filter)
  also have "{e. e \<in> set T} \<inter> set F = set T"
    using facts(6) by auto
  also have "card (set T) = 2"
    using facts(4,5) by (simp add: distinct_card)
  finally show ?thesis .
qed

lemma top2_largest:
  assumes dist: "distinct (map fst F)"
    and len: "2 \<le> length F"
    and nodel: "\<forall>e\<in>set F. \<not> deleted (snd e)"
    and S: "S = sort_key (\<lambda>e. - edge_score P e) F"
    and T: "T = take 2 S"
    and x: "x \<in> set (map (flag_unless_kept (set (map fst T))) F)" "\<not> deleted (snd x)"
    and y: "y \<in> set (map (flag_unless_kept (set (map fst T))) F)" "deleted (snd y)"
  shows "edge_score P y \<le> edge_score P x"
proof -
  note facts = top2_facts [OF dist len nodel S T]
  from x facts(8) obtain x0 where x0: "x0 \<in> set T" "edge_score P x = edge_score P x0"
    by auto
  from y facts(8) obtain y0 where y0: "y0 \<in> set F" "y0 \<notin> set T"
    "edge_score P y = edge_score P y0"
    by auto
  from y0 facts(2,3) have yd: "y0 \<in> set (drop 2 S)"
    by (metis Un_iff set_append)
  have "sorted (map (\<lambda>e. - edge_score P e) (T @ drop 2 S))"
    using S facts(3) by (metis sorted_sort_key)
  then have "- edge_score P x0 \<le> - edge_score P y0"
    using x0(1) yd by (auto simp: sorted_append)
  with x0 y0 show ?thesis by simp
qed

lemma top2_ties:
  assumes dist: "distinct (map fst F)"
    and len: "2 \<le> length F"
    and nodel: "\<forall>e\<in>set F. \<not> deleted (snd e)"
    and S: "S = sort_key (\<lambda>e. - edge_score P e) F"
    and T: "T = take 2 S"
    and es': "es' = map (flag_unless_kept (set (map fst T))) F"
  shows "filter (\<lambda>e. edge_score P e = k \<and> \<not> deleted (snd e)) es'
           = take (length (filter (\<lambda>e. edge_score P e = k) T))
                  (filter (\<lambda>e. edge_score P e = k) es')"
proof -
  note facts = top2_facts [OF dist len nodel S T]
  let ?fl = "flag_unless_kept (set (map fst T))"
  let ?Fk = "filter (\<lambda>e. edge_score P e = k) F"
  let ?Tk = "filter (\<lambda>e. edge_score P e = k) T"
  let ?Dk = "filter (\<lambda>e. edge_score P e = k) (drop 2 S)"
  have "?Fk = filter (\<lambda>e. - edge_score P e = - k) F" by simp
  also have "\<dots> = filter (\<lambda>e. - edge_score P e = - k) S"
    unfolding S by (rule sort_key_stable [symmetric])
  also have "\<dots> = filter (\<lambda>e. edge_score P e = k) (T @ drop 2 S)"
    using facts(3) by simp
  finally have Fk: "?Fk = ?Tk @ ?Dk" by simp
  have lhs: "filter (\<lambda>e. edge_score P e = k \<and> \<not> deleted (snd e)) es'
               = map ?fl (filter (\<lambda>e. edge_score P e = k \<and> e \<in> set T) F)"
  proof -
    have "filter (\<lambda>e. edge_score P e = k \<and> \<not> deleted (snd e)) es'
            = map ?fl (filter (\<lambda>e. edge_score P e = k \<and> \<not> deleted (snd (?fl e))) F)"
      by (simp add: es' filter_map comp_def)
    also have "filter (\<lambda>e. edge_score P e = k \<and> \<not> deleted (snd (?fl e))) F
                 = filter (\<lambda>e. edge_score P e = k \<and> e \<in> set T) F"
      using facts(8) by (intro filter_cong) auto
    finally show ?thesis .
  qed
  have "filter (\<lambda>e. edge_score P e = k \<and> e \<in> set T) F = filter (\<lambda>e. e \<in> set T) ?Fk"
    by (simp add: conj_commute)
  also have "\<dots> = filter (\<lambda>e. e \<in> set T) ?Tk @ filter (\<lambda>e. e \<in> set T) ?Dk"
    by (simp only: Fk filter_append)
  also have "filter (\<lambda>e. e \<in> set T) ?Tk = ?Tk"
    by (rule filter_True) simp
  also have "filter (\<lambda>e. e \<in> set T) ?Dk = []"
    using facts(7) by (auto simp: filter_empty_conv)
  finally have mid: "filter (\<lambda>e. edge_score P e = k \<and> e \<in> set T) F = ?Tk" by simp
  have rhs: "take (length ?Tk) (filter (\<lambda>e. edge_score P e = k) es') = map ?fl ?Tk"
  proof -
    have "filter (\<lambda>e. edge_score P e = k) es' = map ?fl ?Fk"
      by (simp add: es' filter_map comp_def)
    then show ?thesis
      by (simp add: Fk take_map)
  qed
  show ?thesis
    by (simp only: lhs mid rhs)
qed


text \<open>
  C4: for a node with at least two incoming edges from distinct source nodes, all of them
  carrying a weight vector (of at least two entries), none finalized and none flagged
  before, the call returns; every edge has its Zero weight masked with minus infinity and
  is otherwise unchanged apart from the deletion flag; exactly two edges are left
  unflagged; every edge left has a post-softmax maximum weight at least as large as that
  of every flagged edge; and among the edges of one and the same weight the ones left are
  the first enumerated (a prefix of the edges of that weight, in the order of
  \<^verbatim>\<open>in_edges\<close>). The score is the value of \<^verbatim>\<open>torch.max(F.softmax(alpha))\<close>, whatever
  function of the masked weights the tensor library computes.
\<close>

theorem truncate_one_shot_keeps_top2:
  assumes len: "2 \<le> length es"
    and ids: "distinct (map fst es)"
    and ok: "\<forall>(v, d)\<in>set es. \<not> is_finalized d \<and> (\<exists>a. alpha d = Some a \<and> 2 \<le> length a)"
    and nodel: "\<forall>(v, d)\<in>set es. \<not> deleted d"
  shows "\<exists>es'. truncate_input_edges P r es = Inr es'
           \<and> list_all2 masked_then_flagged es es'
           \<and> length (remaining_edges es') = 2
           \<and> (\<forall>x\<in>set es'. \<forall>y\<in>set es'. \<not> deleted (snd x) \<and> deleted (snd y)
                 \<longrightarrow> edge_score P y \<le> edge_score P x)
           \<and> (\<forall>k. \<exists>m. filter (\<lambda>e. edge_score P e = k \<and> \<not> deleted (snd e)) es'
                          = take m (filter (\<lambda>e. edge_score P e = k) es'))"
proof -
  define F where "F = map (\<lambda>(v, d). (v, zero_masked d)) es"
  define S where "S = sort_key (\<lambda>e. - edge_score P e) F"
  define T where "T = take 2 S"
  define es' where "es' = map (flag_unless_kept (set (map fst T))) F"
  have run: "truncate_input_edges P r es = Inr es'"
    unfolding es'_def T_def S_def F_def using len ok by (rule truncate_one_shot_eq)
  have dist: "distinct (map fst F)"
    using ids by (simp add: F_def comp_def case_prod_unfold)
  have lenF: "2 \<le> length F"
    using len by (simp add: F_def)
  have nodelF: "\<forall>e\<in>set F. \<not> deleted (snd e)"
    using nodel by (auto simp: F_def zero_masked_def)
  have rel: "list_all2 masked_then_flagged es es'"
    unfolding es'_def F_def
    by (rule list_all2_all_nthI)
       (auto simp: masked_then_flagged_def flag_unless_kept_def case_prod_unfold)
  have cnt: "length (remaining_edges es') = 2"
    unfolding es'_def using dist lenF nodelF S_def T_def by (rule top2_count)
  have big: "\<forall>x\<in>set es'. \<forall>y\<in>set es'. \<not> deleted (snd x) \<and> deleted (snd y)
               \<longrightarrow> edge_score P y \<le> edge_score P x"
    unfolding es'_def using top2_largest [OF dist lenF nodelF S_def T_def] by blast
  have ties: "\<forall>k. \<exists>m. filter (\<lambda>e. edge_score P e = k \<and> \<not> deleted (snd e)) es'
                        = take m (filter (\<lambda>e. edge_score P e = k) es')"
    using top2_ties [OF dist lenF nodelF S_def T_def es'_def] by blast
  from run rel cnt big ties show ?thesis by blast
qed

theorem truncate_one_shot_keeps_top2_witness:
  "2 \<le> length oneshot_in_edges \<and> distinct (map fst oneshot_in_edges)
   \<and> list_all (\<lambda>(v, d). \<not> is_finalized d \<and> \<not> deleted d
                    \<and> (\<exists>a. alpha d = Some a \<and> 2 \<le> length a)) oneshot_in_edges
   \<and> (\<exists>es'. truncate_input_edges first_weight always_zero oneshot_in_edges = Inr es'
          \<and> length (remaining_edges es') = 2)
   \<and> surviving_sources (truncate_input_edges first_weight always_zero oneshot_in_edges)
       = Inr [2, 3]"
proof -
  have len: "2 \<le> length oneshot_in_edges"
    by (simp add: oneshot_in_edges_def)
  have ids: "distinct (map fst oneshot_in_edges)"
    by (simp add: oneshot_in_edges_def)
  have ok: "\<forall>(v, d)\<in>set oneshot_in_edges.
              \<not> is_finalized d \<and> (\<exists>a. alpha d = Some a \<and> 2 \<le> length a)"
    by (simp add: oneshot_in_edges_def oneshot_edge_def is_finalized_def)
  have nodel: "\<forall>(v, d)\<in>set oneshot_in_edges. \<not> deleted d"
    by (simp add: oneshot_in_edges_def oneshot_edge_def)
  have ev: "surviving_sources (truncate_input_edges first_weight always_zero oneshot_in_edges)
              = Inr [2, 3]"
    by code_simp
  from truncate_one_shot_keeps_top2 [OF len ids ok nodel, of first_weight always_zero]
  have "\<exists>es'. truncate_input_edges first_weight always_zero oneshot_in_edges = Inr es'
          \<and> length (remaining_edges es') = 2"
    by blast
  with len ids ok nodel ev show ?thesis by (auto simp: list_all_iff)
qed

section \<open>Properties of sample_random_architecture\<close>

lemma choice_with_replacement_props:
  "a \<noteq> [] \<Longrightarrow> length (choice_with_replacement a k rng p) = k
     \<and> set (choice_with_replacement a k rng p) \<subseteq> set a"
  by (induction k arbitrary: p) auto

lemma nth_not_in_rest:
  assumes "distinct a" "j < length a"
  shows "a ! j \<notin> set (take j a @ drop (Suc j) a)"
proof -
  have "a = take j a @ a ! j # drop (Suc j) a"
    using assms(2) by (rule id_take_nth_drop)
  then have "distinct (take j a @ a ! j # drop (Suc j) a)"
    using assms(1) by simp
  then show ?thesis by auto
qed

lemma choice_without_replacement_props:
  "k \<le> length a \<Longrightarrow> distinct a \<Longrightarrow>
     length (choice_without_replacement a k rng p) = k
     \<and> distinct (choice_without_replacement a k rng p)
     \<and> set (choice_without_replacement a k rng p) \<subseteq> set a"
proof (induction k arbitrary: a p)
  case 0
  then show ?case by simp
next
  case (Suc k)
  define j where "j = rng p mod length a"
  define rest where "rest = take j a @ drop (Suc j) a"
  have ne: "a \<noteq> []" using Suc.prems(1) by auto
  then have j: "j < length a" by (simp add: j_def)
  have lr: "k \<le> length rest" using Suc.prems(1) j by (simp add: rest_def)
  have dr: "distinct rest"
    using Suc.prems(2) unfolding rest_def
    by (metis distinct_append distinct_drop distinct_take set_take_disj_set_drop_if_distinct
        le_SucI order_refl)
  have sr: "set rest \<subseteq> set a"
    unfolding rest_def by (auto dest: in_set_takeD in_set_dropD)
  have out: "a ! j \<notin> set rest"
    unfolding rest_def using Suc.prems(2) j by (rule nth_not_in_rest)
  from Suc.IH [OF lr dr, of "Suc p"] have ih:
    "length (choice_without_replacement rest k rng (Suc p)) = k"
    "distinct (choice_without_replacement rest k rng (Suc p))"
    "set (choice_without_replacement rest k rng (Suc p)) \<subseteq> set rest"
    by simp_all
  have unfold: "choice_without_replacement a (Suc k) rng p
                  = a ! j # choice_without_replacement rest k rng (Suc p)"
    by (simp add: j_def rest_def Let_def)
  show ?case
    unfolding unfold using ih out sr j by auto
qed


lemma np_random_choice_replace:
  assumes "0 < n"
  shows "\<exists>xs. np_random_choice [0..<n] k True rng p = Inr (xs, p + k)
           \<and> length xs = k \<and> (\<forall>x\<in>set xs. x < n)"
proof -
  have ne: "[0..<n] \<noteq> []" using assms by simp
  from choice_with_replacement_props [OF ne, of k rng p]
  have "length (choice_with_replacement [0..<n] k rng p) = k"
    "\<forall>x\<in>set (choice_with_replacement [0..<n] k rng p). x < n"
    by auto
  with ne show ?thesis
    by (simp add: np_random_choice_def)
qed

lemma np_random_choice_no_replace:
  assumes "k \<le> n" "0 < n"
  shows "\<exists>xs. np_random_choice [0..<n] k False rng p = Inr (xs, p + k)
           \<and> length xs = k \<and> distinct xs \<and> (\<forall>x\<in>set xs. x < n)"
proof -
  have "k \<le> length [0..<n]" "distinct [0..<n]" using assms by simp_all
  from choice_without_replacement_props [OF this, of rng p]
  have "length (choice_without_replacement [0..<n] k rng p) = k"
    "distinct (choice_without_replacement [0..<n] k rng p)"
    "\<forall>x\<in>set (choice_without_replacement [0..<n] k rng p). x < n"
    by auto
  with assms show ?thesis
    by (simp add: np_random_choice_def)
qed

lemma two_distinct:
  assumes "length xs = 2" "distinct xs" "\<forall>x\<in>set xs. x < (n::nat)"
  shows "xs ! 0 \<noteq> xs ! 1" "xs ! 0 < n" "xs ! 1 < n"
  using assms by (auto simp: distinct_conv_nth)

lemma four_below:
  assumes "length xs = NUM_VERTICES" "\<forall>x\<in>set xs. x < (n::nat)"
  shows "xs ! 0 < n" "xs ! 1 < n" "xs ! 2 < n" "xs ! 3 < n"
  using assms by (auto simp: NUM_VERTICES_def)

lemma sample_vertex_shape:
  "\<exists>a b c d o1 o2 o3 o4 p'.
     sample_vertex rng ((normal, reduce), p) i
       = Inr ((normal @ [(a, o1), (b, o2)], reduce @ [(c, o3), (d, o4)]), p')
     \<and> a \<noteq> b \<and> a < i + 2 \<and> b < i + 2 \<and> c \<noteq> d \<and> c < i + 2 \<and> d < i + 2
     \<and> o1 < 7 \<and> o2 < 7 \<and> o3 < 7 \<and> o4 < 7"
proof -
  from np_random_choice_replace [of NUM_OPS NUM_VERTICES rng p] obtain ops where
    ops: "np_random_choice [0..<NUM_OPS] NUM_VERTICES True rng p = Inr (ops, p + NUM_VERTICES)"
      "length ops = NUM_VERTICES" "\<forall>x\<in>set ops. x < NUM_OPS"
    by (auto simp: NUM_OPS_def)
  from np_random_choice_no_replace [of 2 "i + 2" rng "p + NUM_VERTICES"] obtain nn where
    nn: "np_random_choice [0..<i + 2] 2 False rng (p + NUM_VERTICES)
           = Inr (nn, p + NUM_VERTICES + 2)"
      "length nn = 2" "distinct nn" "\<forall>x\<in>set nn. x < i + 2"
    by auto
  from np_random_choice_no_replace [of 2 "i + 2" rng "p + NUM_VERTICES + 2"] obtain nr where
    nr: "np_random_choice [0..<i + 2] 2 False rng (p + NUM_VERTICES + 2)
           = Inr (nr, p + NUM_VERTICES + 2 + 2)"
      "length nr = 2" "distinct nr" "\<forall>x\<in>set nr. x < i + 2"
    by auto
  have run: "sample_vertex rng ((normal, reduce), p) i
       = Inr ((normal @ [(nn ! 0, ops ! 0), (nn ! 1, ops ! 1)],
               reduce @ [(nr ! 0, ops ! 2), (nr ! 1, ops ! 3)]), p + NUM_VERTICES + 2 + 2)"
    unfolding sample_vertex_def
    by (simp only: snd_conv fst_conv ops(1) nn(1) nr(1) sum.case prod.case)
  note o = four_below [OF ops(2,3), unfolded NUM_OPS_def]
  note n = two_distinct [OF nn(2,3,4)]
  note r = two_distinct [OF nr(2,3,4)]
  from run o n r show ?thesis by blast
qed


lemma upt4: "[0..<NUM_VERTICES] = [0, 1, 2, 3]"
  by (simp add: NUM_VERTICES_def upt_rec)

lemma vertex_cases: "i < NUM_VERTICES \<Longrightarrow> i = 0 \<or> i = 1 \<or> i = 2 \<or> i = 3"
  by (auto simp: NUM_VERTICES_def)

text \<open>
  C10: for every sequence of raw numbers that the random generator may produce, the call
  returns and the installed compact encoding has exactly 8 pairs for each cell type; the
  two input indices of intermediate node \<open>i\<close> are distinct and both below \<open>i + 2\<close>; and
  every operation index is below 7, so index 7 is never sampled.
\<close>

theorem sample_random_architecture_shape:
  "\<exists>normal reduce.
     sample_random_architecture False labeled rng = Inr (normal, reduce)
     \<and> length normal = 8 \<and> length reduce = 8
     \<and> (\<forall>i<NUM_VERTICES.
           fst (inputs_of normal i) \<noteq> snd (inputs_of normal i)
           \<and> fst (inputs_of normal i) < i + 2 \<and> snd (inputs_of normal i) < i + 2
           \<and> fst (inputs_of reduce i) \<noteq> snd (inputs_of reduce i)
           \<and> fst (inputs_of reduce i) < i + 2 \<and> snd (inputs_of reduce i) < i + 2)
     \<and> (\<forall>p\<in>set normal \<union> set reduce. snd p < 7)"
proof -
  from sample_vertex_shape [of rng "[]" "[]" 0 0]
  obtain a0 b0 c0 d0 o0 q0 r0 t0 p1 where
    s0: "sample_vertex rng (([], []), 0) 0
           = Inr (([(a0, o0), (b0, q0)], [(c0, r0), (d0, t0)]), p1)"
    and f0: "a0 \<noteq> b0" "a0 < 0 + 2" "b0 < 0 + 2" "c0 \<noteq> d0" "c0 < 0 + 2" "d0 < 0 + 2"
      "o0 < 7" "q0 < 7" "r0 < 7" "t0 < 7"
    by auto
  from sample_vertex_shape [of rng "[(a0, o0), (b0, q0)]" "[(c0, r0), (d0, t0)]" p1 1]
  obtain a1 b1 c1 d1 o1 q1 r1 t1 p2 where
    s1: "sample_vertex rng (([(a0, o0), (b0, q0)], [(c0, r0), (d0, t0)]), p1) 1
           = Inr (([(a0, o0), (b0, q0), (a1, o1), (b1, q1)],
                   [(c0, r0), (d0, t0), (c1, r1), (d1, t1)]), p2)"
    and f1: "a1 \<noteq> b1" "a1 < 1 + 2" "b1 < 1 + 2" "c1 \<noteq> d1" "c1 < 1 + 2" "d1 < 1 + 2"
      "o1 < 7" "q1 < 7" "r1 < 7" "t1 < 7"
    by auto
  from sample_vertex_shape [of rng "[(a0, o0), (b0, q0), (a1, o1), (b1, q1)]"
      "[(c0, r0), (d0, t0), (c1, r1), (d1, t1)]" p2 2]
  obtain a2 b2 c2 d2 o2 q2 r2 t2 p3 where
    s2: "sample_vertex rng (([(a0, o0), (b0, q0), (a1, o1), (b1, q1)],
                             [(c0, r0), (d0, t0), (c1, r1), (d1, t1)]), p2) 2
           = Inr (([(a0, o0), (b0, q0), (a1, o1), (b1, q1), (a2, o2), (b2, q2)],
                   [(c0, r0), (d0, t0), (c1, r1), (d1, t1), (c2, r2), (d2, t2)]), p3)"
    and f2: "a2 \<noteq> b2" "a2 < 2 + 2" "b2 < 2 + 2" "c2 \<noteq> d2" "c2 < 2 + 2" "d2 < 2 + 2"
      "o2 < 7" "q2 < 7" "r2 < 7" "t2 < 7"
    by auto
  from sample_vertex_shape [of rng
      "[(a0, o0), (b0, q0), (a1, o1), (b1, q1), (a2, o2), (b2, q2)]"
      "[(c0, r0), (d0, t0), (c1, r1), (d1, t1), (c2, r2), (d2, t2)]" p3 3]
  obtain a3 b3 c3 d3 o3 q3 r3 t3 p4 where
    s3: "sample_vertex rng
           (([(a0, o0), (b0, q0), (a1, o1), (b1, q1), (a2, o2), (b2, q2)],
             [(c0, r0), (d0, t0), (c1, r1), (d1, t1), (c2, r2), (d2, t2)]), p3) 3
           = Inr (([(a0, o0), (b0, q0), (a1, o1), (b1, q1), (a2, o2), (b2, q2),
                    (a3, o3), (b3, q3)],
                   [(c0, r0), (d0, t0), (c1, r1), (d1, t1), (c2, r2), (d2, t2),
                    (c3, r3), (d3, t3)]), p4)"
    and f3: "a3 \<noteq> b3" "a3 < 3 + 2" "b3 < 3 + 2" "c3 \<noteq> d3" "c3 < 3 + 2" "d3 < 3 + 2"
      "o3 < 7" "q3 < 7" "r3 < 7" "t3 < 7"
    by auto
  define normal where
    "normal = [(a0, o0), (b0, q0), (a1, o1), (b1, q1), (a2, o2), (b2, q2), (a3, o3), (b3, q3)]"
  define reduce where
    "reduce = [(c0, r0), (d0, t0), (c1, r1), (d1, t1), (c2, r2), (d2, t2), (c3, r3), (d3, t3)]"
  have run: "sample_random_architecture False labeled rng = Inr (normal, reduce)"
    unfolding sample_random_architecture_def upt4 normal_def reduce_def
    by (simp only: if_False sample_vertices.simps s0 s1 s2 s3 sum.case prod.case)
  have len: "length normal = 8" "length reduce = 8"
    by (simp_all add: normal_def reduce_def)
  have inputs: "fst (inputs_of normal i) \<noteq> snd (inputs_of normal i)
           \<and> fst (inputs_of normal i) < i + 2 \<and> snd (inputs_of normal i) < i + 2
           \<and> fst (inputs_of reduce i) \<noteq> snd (inputs_of reduce i)
           \<and> fst (inputs_of reduce i) < i + 2 \<and> snd (inputs_of reduce i) < i + 2"
    if "i < NUM_VERTICES" for i
    using vertex_cases [OF that] f0(1-6) f1(1-6) f2(1-6) f3(1-6)
    by (auto simp: inputs_of_def normal_def reduce_def)
  have opsb: "\<forall>p\<in>set normal \<union> set reduce. snd p < 7"
    using f0(7-10) f1(7-10) f2(7-10) f3(7-10) by (auto simp: normal_def reduce_def)
  from run len inputs opsb show ?thesis by blast
qed

theorem sample_random_architecture_shape_witness:
  "sample_random_architecture False (Inl AssertionError) counting_rng
     = Inr ([(0, 0), (1, 1), (0, 1), (2, 2), (0, 2), (1, 3), (3, 3), (1, 4)],
            [(0, 2), (1, 3), (2, 3), (1, 4), (2, 4), (3, 5), (0, 5), (4, 6)])
   \<and> (\<exists>normal reduce.
         sample_random_architecture False (Inl AssertionError) counting_rng = Inr (normal, reduce)
         \<and> length normal = 8 \<and> length reduce = 8
         \<and> fst (inputs_of normal 3) \<noteq> snd (inputs_of normal 3))"
proof -
  have ev: "sample_random_architecture False (Inl AssertionError) counting_rng
     = Inr ([(0, 0), (1, 1), (0, 1), (2, 2), (0, 2), (1, 3), (3, 3), (1, 4)],
            [(0, 2), (1, 3), (2, 3), (1, 4), (2, 4), (3, 5), (0, 5), (4, 6)])"
    by code_simp
  have v: "3 < NUM_VERTICES" by (simp add: NUM_VERTICES_def)
  from sample_random_architecture_shape [of "Inl AssertionError" counting_rng] v
  have "\<exists>normal reduce.
         sample_random_architecture False (Inl AssertionError) counting_rng = Inr (normal, reduce)
         \<and> length normal = 8 \<and> length reduce = 8
         \<and> fst (inputs_of normal 3) \<noteq> snd (inputs_of normal 3)"
    by blast
  with ev show ?thesis by blast
qed

section \<open>Properties of the successive-halving optimizer\<close>

subsection \<open>The bounded history\<close>

lemma length_replace_first: "length (replace_first acc ps child) = length ps"
  by (induction ps) simp_all

lemma replace_first_none:
  "\<forall>p\<in>set ps. \<not> acc child > acc p \<Longrightarrow> replace_first acc ps child = ps"
  by (induction ps) simp_all

lemma replace_first_at:
  "i < length ps \<Longrightarrow> acc child > acc (ps ! i) \<Longrightarrow> \<forall>j<i. \<not> acc child > acc (ps ! j)
     \<Longrightarrow> replace_first acc ps child = ps[i := child]"
proof (induction ps arbitrary: i)
  case Nil
  then show ?case by simp
next
  case (Cons p ps)
  show ?case
  proof (cases i)
    case 0
    with Cons.prems show ?thesis by simp
  next
    case (Suc k)
    with Cons.prems have "\<not> acc child > acc p" by auto
    moreover have "replace_first acc ps child = ps[k := child]"
      using Cons.prems Suc by (intro Cons.IH) auto
    ultimately show ?thesis using Suc by simp
  qed
qed

text \<open>
  C9: a call of \<^verbatim>\<open>_update_history\<close> keeps a history of at most 100 entries within that
  bound; below 100 entries it appends the new entry; at capacity it replaces the first
  stored entry whose accuracy is strictly lower than that of the new entry and leaves
  every other position as it was; and when no stored entry has a lower accuracy the
  history is unchanged.
\<close>

theorem update_history_bounded:
  "(length hist \<le> 100 \<longrightarrow> length (update_history ms hist child) \<le> 100)
   \<and> (length hist < 100 \<longrightarrow> update_history ms hist child = hist @ [child])
   \<and> (100 \<le> length hist \<longrightarrow>
        (\<forall>i<length hist.
           accuracy (ms ! child) > accuracy (ms ! (hist ! i))
           \<and> (\<forall>j<i. \<not> accuracy (ms ! child) > accuracy (ms ! (hist ! j)))
           \<longrightarrow> update_history ms hist child = hist[i := child]))
   \<and> (100 \<le> length hist \<longrightarrow>
        (\<forall>p\<in>set hist. \<not> accuracy (ms ! child) > accuracy (ms ! p))
        \<longrightarrow> update_history ms hist child = hist)"
proof (intro conjI impI allI)
  assume "length hist \<le> 100"
  then show "length (update_history ms hist child) \<le> 100"
    by (simp add: update_history_def length_replace_first)
next
  assume "length hist < 100"
  then show "update_history ms hist child = hist @ [child]"
    by (simp add: update_history_def)
next
  fix i
  assume full: "100 \<le> length hist" and i: "i < length hist"
    and first: "accuracy (ms ! child) > accuracy (ms ! (hist ! i))
                \<and> (\<forall>j<i. \<not> accuracy (ms ! child) > accuracy (ms ! (hist ! j)))"
  have "replace_first (\<lambda>r. accuracy (ms ! r)) hist child = hist[i := child]"
    using i first by (intro replace_first_at) auto
  with full show "update_history ms hist child = hist[i := child]"
    by (simp add: update_history_def)
next
  assume full: "100 \<le> length hist"
    and none: "\<forall>p\<in>set hist. \<not> accuracy (ms ! child) > accuracy (ms ! p)"
  have "replace_first (\<lambda>r. accuracy (ms ! r)) hist child = hist"
    using none by (intro replace_first_none) auto
  with full show "update_history ms hist child = hist"
    by (simp add: update_history_def)
qed

theorem update_history_bounded_witness:
  "length full_history = 100
   \<and> accuracy (two_models ! 1) > accuracy (two_models ! (full_history ! 0))
   \<and> update_history two_models full_history 1 = full_history[0 := 1]
   \<and> update_history two_models full_history 0 = full_history
   \<and> update_history two_models [0, 1] 1 = [0, 1, 1]
   \<and> length (update_history two_models full_history 1) \<le> 100"
proof -
  have len: "length full_history = 100"
    by (simp add: full_history_def)
  have h0: "full_history ! 0 = 0"
    by (simp add: full_history_def)
  have gt: "accuracy (two_models ! 1) > accuracy (two_models ! (full_history ! 0))"
    by (simp add: h0 two_models_def)
  have no: "\<forall>p\<in>set full_history. \<not> accuracy (two_models ! 0) > accuracy (two_models ! p)"
    by (simp add: full_history_def)
  note t1 = update_history_bounded [of full_history two_models 1]
  note t0 = update_history_bounded [of full_history two_models 0]
  note t2 = update_history_bounded [of "[0, 1]" two_models 1]
  have a: "update_history two_models full_history 1 = full_history[0 := 1]"
    using t1 len gt by simp
  have b: "update_history two_models full_history 0 = full_history"
    using t0 len no by simp
  have c: "update_history two_models [0, 1] 1 = [0, 1, 1]"
    using t2 by simp
  have d: "length (update_history two_models full_history 1) \<le> 100"
    using t1 len by simp
  from len gt a b c d show ?thesis by simp
qed

subsection \<open>One step and the end of a round\<close>

text \<open>The fields that a step leaves alone until the round ends.\<close>

lemma store_model_frame:
  assumes "store_model pos a acc t s = (child, s1)"
  shows "eta s1 = eta s" "budget_max s1 = budget_max s" "budget_type s1 = budget_type s"
    "fidelity s1 = fidelity s" "number_archs s1 = number_archs s"
    "fidelity_counter s1 = fidelity_counter s" "end_flag s1 = end_flag s"
    "length (sampled_archs s1) =
       (case pos of None \<Rightarrow> Suc (length (sampled_archs s)) | Some i \<Rightarrow> length (sampled_archs s))"
  using assms by (auto simp: store_model_def Let_def split: option.splits)

lemma record_metrics_total:
  "total_query q \<Longrightarrow> \<exists>stats'. record_metrics q a h e entries stats = Inr stats'"
proof (induction entries arbitrary: stats)
  case Nil
  then show ?case by simp
next
  case (Cons entry entries)
  from Cons.prems obtain v where "q a (snd entry) e = Inr v"
    unfolding total_query_def by blast
  then show ?case
    using Cons.IH [OF Cons.prems] by (simp add: record_metric_def)
qed

lemma py_index_in_range:
  "0 \<le> i \<Longrightarrow> i < int (length xs) \<Longrightarrow> py_index xs i = Inr (nat i)"
  by (simp add: py_index_def)

lemma py_index_Inr_nonempty: "py_index xs i = Inr k \<Longrightarrow> xs \<noteq> []"
  by (auto simp: py_index_def split: if_splits)

lemma update_optimizer_stats_frame:
  assumes "update_optimizer_stats q s = Inr s'"
  shows "\<exists>stats. s' = s\<lparr>optimizer_stats := stats\<rparr>"
  using assms
  by (auto simp: update_optimizer_stats_def Let_def split: sum.splits)

lemma update_optimizer_stats_total:
  assumes "total_query q" "0 \<le> fidelity_counter s"
    "fidelity_counter s < int (length (sampled_archs s))"
  shows "\<exists>stats. update_optimizer_stats q s = Inr (s\<lparr>optimizer_stats := stats\<rparr>)"
proof -
  have i: "py_index (sampled_archs s) (fidelity_counter s) = Inr (nat (fidelity_counter s))"
    using assms(2,3) by (rule py_index_in_range)
  obtain stats where
    "record_metrics q (arch (models s ! (sampled_archs s ! nat (fidelity_counter s))))
       (sampled_archs s ! nat (fidelity_counter s)) (fidelity s) metrics (optimizer_stats s)
     = Inr stats"
    using record_metrics_total [OF assms(1)] by blast
  with i have "\<exists>stats'. update_optimizer_stats q s = Inr (s\<lparr>optimizer_stats := stats'\<rparr>)"
    unfolding update_optimizer_stats_def Let_def
    by (simp only: sum.case) (rule exI, rule refl)
  then show ?thesis .
qed

lemma evaluate_and_record_frame:
  assumes "evaluate_and_record q x s = Inr (b, s1)"
  shows "eta s1 = eta s" "budget_max s1 = budget_max s" "budget_type s1 = budget_type s"
    "fidelity s1 = fidelity s" "number_archs s1 = number_archs s"
    "fidelity_counter s1 = fidelity_counter s + 1" "end_flag s1 = end_flag s"
    "sampled_archs s1 \<noteq> []"
    "int (length (sampled_archs s1)) =
       (if int (length (sampled_archs s)) < number_archs s
        then int (length (sampled_archs s)) + 1 else int (length (sampled_archs s)))"
proof -
  from assms obtain pos a acc t child s0 s2 where
    ch: "choose_model x s = Inr (pos, a)" and
    st: "store_model pos a acc t s = (child, s0)" and
    up: "update_optimizer_stats q s0 = Inr s2" and
    s1: "s1 = s2\<lparr>fidelity_counter := fidelity_counter s2 + 1,
                  history := update_history (models s2) (history s2) child\<rparr>"
    by (auto simp: evaluate_and_record_def Let_def split: sum.splits prod.splits)
  from update_optimizer_stats_frame [OF up] obtain stats where
    s2: "s2 = s0\<lparr>optimizer_stats := stats\<rparr>" by blast
  note fr = store_model_frame [OF st]
  show "eta s1 = eta s" "budget_max s1 = budget_max s" "budget_type s1 = budget_type s"
    "fidelity s1 = fidelity s" "number_archs s1 = number_archs s"
    "fidelity_counter s1 = fidelity_counter s + 1" "end_flag s1 = end_flag s"
    using fr s1 s2 by simp_all
  have pos: "(pos = None) = (int (length (sampled_archs s)) < number_archs s)"
    using ch by (auto simp: choose_model_def split: if_splits sum.splits)
  show "int (length (sampled_archs s1)) =
       (if int (length (sampled_archs s)) < number_archs s
        then int (length (sampled_archs s)) + 1 else int (length (sampled_archs s)))"
    using fr(8) pos s1 s2 by (auto split: option.splits)
  have "pos \<noteq> None \<Longrightarrow> sampled_archs s \<noteq> []"
    using ch by (auto simp: choose_model_def split: if_splits sum.splits dest: py_index_Inr_nonempty)
  then show "sampled_archs s1 \<noteq> []"
    using fr(8) s1 s2 by (cases pos) auto
qed


lemma measure_model_total:
  assumes "total_query q" "budget_type s = ''time'' \<or> budget_type s = ''epoch''"
  shows "\<exists>res. measure_model q a s = Inr res"
proof -
  from assms(1) obtain v where "q a (performance_metric s) (fidelity s) = Inr v"
    unfolding total_query_def by blast
  with assms(2) show ?thesis
    by (auto simp: measure_model_def)
qed

lemma evaluate_and_record_total:
  assumes tot: "total_query q"
    and bt: "budget_type s = ''time'' \<or> budget_type s = ''epoch''"
    and cnt: "0 \<le> fidelity_counter s" "fidelity_counter s < number_archs s"
    and len: "int (length (sampled_archs s)) = fidelity_counter s
              \<or> int (length (sampled_archs s)) = number_archs s"
  shows "\<exists>res. evaluate_and_record q x s = Inr res"
proof -
  have "\<exists>pos a. choose_model x s = Inr (pos, a)
          \<and> (pos = None) = (int (length (sampled_archs s)) < number_archs s)"
    using cnt len by (auto simp: choose_model_def py_index_in_range)
  then obtain pos a where ch: "choose_model x s = Inr (pos, a)"
    and pos: "(pos = None) = (int (length (sampled_archs s)) < number_archs s)" by blast
  from measure_model_total [OF tot bt] obtain acc t b where
    me: "measure_model q a s = Inr (acc, t, b)" by (metis prod_cases3)
  obtain child s0 where st: "store_model pos a acc t s = (child, s0)"
    by (cases "store_model pos a acc t s")
  note fr = store_model_frame [OF st]
  have "fidelity_counter s0 < int (length (sampled_archs s0))"
    using fr(6,8) pos cnt len by (cases pos) auto
  with update_optimizer_stats_total [OF tot, of s0] fr(6) cnt(1)
  obtain stats where "update_optimizer_stats q s0 = Inr (s0\<lparr>optimizer_stats := stats\<rparr>)"
    by auto
  with ch me st show ?thesis
    by (simp add: evaluate_and_record_def Let_def)
qed


lemma ranked_properties:
  "mset (sort_key (\<lambda>r. - acc r) xs) = mset xs
   \<and> sorted_wrt (\<lambda>r r'. acc r \<ge> (acc r' :: real)) (sort_key (\<lambda>r. - acc r) xs)"
proof -
  have "sorted (map (\<lambda>r. - acc r) (sort_key (\<lambda>r. - acc r) xs))"
    by (rule sorted_sort_key)
  then have "sorted_wrt (\<lambda>r r'. - acc r \<le> - acc r') (sort_key (\<lambda>r. - acc r) xs)"
    by (simp add: sorted_map)
  then show ?thesis by simp
qed

lemma py_slice_nonneg: "0 \<le> m \<Longrightarrow> py_slice xs m = take (nat m) xs"
  by (simp add: py_slice_def)

lemma finish_round_budget:
  assumes "fidelity_counter s = number_archs s"
    and "of_int \<lfloor>eta s * of_int (fidelity s)\<rfloor> > budget_max s"
    and "ranked = sort_key (\<lambda>r. - accuracy (models s ! r)) (sampled_archs s)"
  shows "finish_round s =
           Inr (s\<lparr>end_flag := True, fidelity := \<lfloor>eta s * of_int (fidelity s)\<rfloor>,
                  sampled_archs := ranked, number_archs := int (length ranked),
                  fidelity_counter := 0\<rparr>)"
  using assms by (simp add: finish_round_def Let_def)

lemma finish_round_promote:
  assumes "fidelity_counter s = number_archs s"
    and "\<not> of_int \<lfloor>eta s * of_int (fidelity s)\<rfloor> > budget_max s"
    and "eta s \<noteq> 0"
    and "m = \<lfloor>of_int (number_archs s) / eta s\<rfloor>" "m \<noteq> 0"
    and "ranked = sort_key (\<lambda>r. - accuracy (models s ! r)) (sampled_archs s)"
  shows "finish_round s =
           Inr (s\<lparr>fidelity := \<lfloor>eta s * of_int (fidelity s)\<rfloor>,
                  sampled_archs := py_slice ranked m,
                  number_archs := int (length (py_slice ranked m)),
                  fidelity_counter := 0\<rparr>)"
proof -
  have "\<lfloor>of_int (number_archs s) / eta s\<rfloor> \<noteq> 0" using assms(4,5) by simp
  then show ?thesis
    unfolding finish_round_def Let_def assms(4,6)
    using assms(1,2,3) by (simp only: if_True if_False refl not_False_eq_True)
qed

lemma finish_round_last:
  assumes "fidelity_counter s = number_archs s"
    and "\<not> of_int \<lfloor>eta s * of_int (fidelity s)\<rfloor> > budget_max s"
    and "eta s \<noteq> 0"
    and "\<lfloor>of_int (number_archs s) / eta s\<rfloor> = 0"
    and "sort_key (\<lambda>r. - accuracy (models s ! r)) (sampled_archs s) = best # rest"
  shows "finish_round s =
           Inr (s\<lparr>end_flag := True, fidelity := \<lfloor>eta s * of_int (fidelity s)\<rfloor>,
                  sampled_archs := [best], number_archs := 1, fidelity_counter := 0\<rparr>)"
  unfolding finish_round_def Let_def
  using assms by (simp only: if_True if_False refl not_False_eq_True list.case list.size)
    simp

lemma round_end_step:
  assumes rec: "evaluate_and_record q x s = Inr (budget, s1)"
    and last: "fidelity_counter s + 1 = number_archs s"
    and cnt: "0 \<le> fidelity_counter s"
    and eta_pos: "0 < eta s"
  shows "\<exists>s' ranked.
           new_epoch q x s = Inr (budget, s')
           \<and> mset ranked = mset (sampled_archs s1)
           \<and> sorted_wrt (\<lambda>r r'. accuracy (models s1 ! r) \<ge> accuracy (models s1 ! r')) ranked
           \<and> fidelity s' = \<lfloor>eta s * of_int (fidelity s)\<rfloor>
           \<and> (if of_int \<lfloor>eta s * of_int (fidelity s)\<rfloor> > budget_max s
               then end_flag s' \<and> sampled_archs s' = ranked
               else if \<lfloor>of_int (number_archs s) / eta s\<rfloor> > 0
               then sampled_archs s' = take (nat \<lfloor>of_int (number_archs s) / eta s\<rfloor>) ranked
                    \<and> end_flag s' = end_flag s
               else sampled_archs s' = [hd ranked] \<and> end_flag s')
           \<and> number_archs s' = int (length (sampled_archs s'))
           \<and> fidelity_counter s' = 0"
proof -
  note fr = evaluate_and_record_frame [OF rec]
  define ranked where "ranked = sort_key (\<lambda>r. - accuracy (models s1 ! r)) (sampled_archs s1)"
  define nf where "nf = \<lfloor>eta s * of_int (fidelity s)\<rfloor>"
  define m where "m = \<lfloor>of_int (number_archs s) / eta s\<rfloor>"
  have rp: "mset ranked = mset (sampled_archs s1)"
    "sorted_wrt (\<lambda>r r'. accuracy (models s1 ! r) \<ge> accuracy (models s1 ! r')) ranked"
    unfolding ranked_def using ranked_properties [of "\<lambda>r. accuracy (models s1 ! r)"] by simp_all
  have ne: "ranked \<noteq> []"
    using rp(1) fr(8) by (metis mset_zero_iff)
  then obtain best rest where br: "ranked = best # rest" by (cases ranked) auto
  have full: "fidelity_counter s1 = number_archs s1"
    using fr(5,6) last by simp
  have nf1: "nf = \<lfloor>eta s1 * of_int (fidelity s1)\<rfloor>"
    using fr(1,4) by (simp add: nf_def)
  have m1: "m = \<lfloor>of_int (number_archs s1) / eta s1\<rfloor>"
    using fr(1,5) by (simp add: m_def)
  have bm: "budget_max s1 = budget_max s" by (rule fr(2))
  have e1: "eta s1 \<noteq> 0" using fr(1) eta_pos by simp
  have "0 \<le> of_int (number_archs s) / eta s"
    using last cnt eta_pos by simp
  then have nonneg: "0 \<le> m"
    unfolding m_def by simp
  have goal: "\<exists>s'. new_epoch q x s = Inr (budget, s')
           \<and> fidelity s' = nf
           \<and> (if of_int nf > budget_max s
               then end_flag s' \<and> sampled_archs s' = ranked
               else if m > 0
               then sampled_archs s' = take (nat m) ranked \<and> end_flag s' = end_flag s
               else sampled_archs s' = [hd ranked] \<and> end_flag s')
           \<and> number_archs s' = int (length (sampled_archs s'))
           \<and> fidelity_counter s' = 0"
  proof (cases "of_int nf > budget_max s")
    case True
    then have "of_int \<lfloor>eta s1 * of_int (fidelity s1)\<rfloor> > budget_max s1"
      using nf1 bm by simp
    from finish_round_budget [OF full this ranked_def] rec True show ?thesis
      by (simp add: new_epoch_def nf1)
  next
    case False
    then have nb: "\<not> of_int \<lfloor>eta s1 * of_int (fidelity s1)\<rfloor> > budget_max s1"
      using nf1 bm by simp
    show ?thesis
    proof (cases "m > 0")
      case True
      then have "m \<noteq> 0" by simp
      from finish_round_promote [OF full nb e1 m1 this ranked_def] rec False True fr(7)
      show ?thesis
        by (simp add: new_epoch_def nf1 py_slice_nonneg)
    next
      case False
      with nonneg have "m = 0" by simp
      then have z: "\<lfloor>of_int (number_archs s1) / eta s1\<rfloor> = 0" using m1 by simp
      from finish_round_last [OF full nb e1 z br [unfolded ranked_def]] rec \<open>m = 0\<close>
        \<open>\<not> of_int nf > budget_max s\<close> br
      show ?thesis
        by (simp add: new_epoch_def nf1)
    qed
  qed
  then show ?thesis
    using rp unfolding nf_def m_def by blast
qed


text \<open>
  C2: when the step is the one with which the position counter reaches
  \<^verbatim>\<open>number_archs\<close> (for a positive \<^verbatim>\<open>eta\<close>, as the configuration demands), and the part of
  the step before the test has gone through, \<^verbatim>\<open>new_epoch\<close> returns; the population is
  ranked by descending accuracy (\<open>ranked\<close> is a permutation of the population in that
  order); the next fidelity is the floor of \<^verbatim>\<open>eta\<close> times the fidelity; if it exceeds
  \<^verbatim>\<open>budget_max\<close> the end flag is set and the ranked population is kept whole; otherwise,
  if the floor of \<^verbatim>\<open>number_archs / eta\<close> is positive, the population is the top that many
  entries and the end flag is as before; otherwise only the best entry is kept and the end
  flag is set. In all cases \<^verbatim>\<open>number_archs\<close> is the length of the new population, the
  counter is 0 and the stored fidelity is the next fidelity.
\<close>

theorem new_epoch_round_end:
  assumes rec: "evaluate_and_record q x s = Inr (budget, s1)"
    and last: "fidelity_counter s + 1 = number_archs s"
    and cnt: "0 \<le> fidelity_counter s"
    and eta_pos: "0 < eta s"
  shows "\<exists>s' ranked.
           new_epoch q x s = Inr (budget, s')
           \<and> mset ranked = mset (sampled_archs s1)
           \<and> sorted_wrt (\<lambda>r r'. accuracy (models s1 ! r) \<ge> accuracy (models s1 ! r')) ranked
           \<and> fidelity s' = \<lfloor>eta s * of_int (fidelity s)\<rfloor>
           \<and> (if of_int \<lfloor>eta s * of_int (fidelity s)\<rfloor> > budget_max s
               then end_flag s' \<and> sampled_archs s' = ranked
               else if \<lfloor>of_int (number_archs s) / eta s\<rfloor> > 0
               then sampled_archs s' = take (nat \<lfloor>of_int (number_archs s) / eta s\<rfloor>) ranked
                    \<and> end_flag s' = end_flag s
               else sampled_archs s' = [hd ranked] \<and> end_flag s')
           \<and> number_archs s' = int (length (sampled_archs s'))
           \<and> fidelity_counter s' = 0"
  using rec last cnt eta_pos by (rule round_end_step)

theorem new_epoch_round_end_witness:
  "fidelity_counter three_evaluated + 1 = number_archs three_evaluated
   \<and> 0 \<le> fidelity_counter three_evaluated
   \<and> 0 < eta three_evaluated
   \<and> (\<exists>s1. evaluate_and_record accuracy_query 4 three_evaluated = Inr (1, s1)
          \<and> sampled_archs s1 = [0, 1, 2, 3]
          \<and> map (\<lambda>r. accuracy (models s1 ! r)) [0, 1, 2, 3] = [1, 3, 2, 4])
   \<and> (\<exists>s'. new_epoch accuracy_query 4 three_evaluated = Inr (1, s')
          \<and> fidelity s' = 2 \<and> sampled_archs s' = [3, 1] \<and> number_archs s' = 2
          \<and> fidelity_counter s' = 0 \<and> \<not> end_flag s')"
proof -
  have last: "fidelity_counter three_evaluated + 1 = number_archs three_evaluated"
    and cnt: "0 \<le> fidelity_counter three_evaluated"
    and eta_pos: "0 < eta three_evaluated"
    by (simp_all add: three_evaluated_def)
  have pre: "\<exists>s1. evaluate_and_record accuracy_query 4 three_evaluated = Inr (1, s1)
          \<and> sampled_archs s1 = [0, 1, 2, 3]
          \<and> map (\<lambda>r. accuracy (models s1 ! r)) [0, 1, 2, 3] = [1, 3, 2, 4]"
    by (simp add: evaluate_and_record_def choose_model_def measure_model_def store_model_def
        update_optimizer_stats_def py_index_def metrics_def record_metric_def Let_def
        three_evaluated_def accuracy_query_def)
  then obtain s1 where rec: "evaluate_and_record accuracy_query 4 three_evaluated = Inr (1, s1)"
    by blast
  from new_epoch_round_end [OF rec last cnt eta_pos] obtain s' ranked where
    r: "new_epoch accuracy_query 4 three_evaluated = Inr (1, s')"
      "fidelity s' = \<lfloor>eta three_evaluated * of_int (fidelity three_evaluated)\<rfloor>"
      "if of_int \<lfloor>eta three_evaluated * of_int (fidelity three_evaluated)\<rfloor>
            > budget_max three_evaluated
       then end_flag s' \<and> sampled_archs s' = ranked
       else if \<lfloor>of_int (number_archs three_evaluated) / eta three_evaluated\<rfloor> > 0
       then sampled_archs s'
              = take (nat \<lfloor>of_int (number_archs three_evaluated) / eta three_evaluated\<rfloor>)
                  ranked
            \<and> end_flag s' = end_flag three_evaluated
       else sampled_archs s' = [hd ranked] \<and> end_flag s'"
      "number_archs s' = int (length (sampled_archs s'))"
      "fidelity_counter s' = 0"
    by blast
  have ev: "population_of (new_epoch accuracy_query 4 three_evaluated) = Inr [3, 1]"
    by code_simp
  with r(1) have pop: "sampled_archs s' = [3, 1]"
    by (simp add: population_of_def)
  have f: "fidelity s' = 2"
    using r(2) by (simp add: three_evaluated_def)
  have e: "\<not> end_flag s'"
    using r(3) by (simp add: three_evaluated_def)
  have n: "number_archs s' = 2"
    using r(4) pop by simp
  from last cnt eta_pos pre r(1) f pop n r(5) e show ?thesis by blast
qed

subsection \<open>The budget that a step returns\<close>

text \<open>
  C3 at a failing input: an optimizer with the time budget over the NAS-Bench-301 query,
  whose surrogate answers 90 for the validation accuracy and 5000 for the runtime, at
  fidelity 100. The step returns 90: the second query of lines 95-100 asks for
  \<^verbatim>\<open>self.performance_metric\<close> again, not for the train time.
\<close>

theorem new_epoch_time_budget_is_accuracy:
  "budget_of (new_epoch nb301_query () (init 100 100 2 2 ''time'')) = Inr 90
   \<and> nb301_query () VAL_ACCURACY 100 = Inr 90
   \<and> nb301_query () TRAIN_TIME 100 = Inr 5000"
  by code_simp

subsection \<open>Rounds\<close>

lemma finish_round_not_full:
  "fidelity_counter s \<noteq> number_archs s \<Longrightarrow> finish_round s = Inr s"
  by (simp add: finish_round_def)

lemma new_epoch_inner_step:
  assumes tot: "total_query q"
    and bt: "budget_type s = ''time'' \<or> budget_type s = ''epoch''"
    and cnt: "0 \<le> fidelity_counter s" "fidelity_counter s + 1 < number_archs s"
    and len: "int (length (sampled_archs s)) = fidelity_counter s
              \<or> int (length (sampled_archs s)) = number_archs s"
  shows "\<exists>b s'. new_epoch q x s = Inr (b, s')
           \<and> eta s' = eta s \<and> budget_max s' = budget_max s \<and> budget_type s' = budget_type s
           \<and> fidelity s' = fidelity s \<and> number_archs s' = number_archs s
           \<and> fidelity_counter s' = fidelity_counter s + 1 \<and> end_flag s' = end_flag s
           \<and> (int (length (sampled_archs s')) = fidelity_counter s'
                \<or> int (length (sampled_archs s')) = number_archs s')"
proof -
  have lt: "fidelity_counter s < number_archs s" using cnt(2) by simp
  from evaluate_and_record_total [OF tot bt cnt(1) lt len] obtain b s1 where
    rec: "evaluate_and_record q x s = Inr (b, s1)" by force
  note fr = evaluate_and_record_frame [OF rec]
  have "fidelity_counter s1 \<noteq> number_archs s1"
    using fr(5,6) cnt(2) by simp
  then have "finish_round s1 = Inr s1" by (rule finish_round_not_full)
  with rec have run: "new_epoch q x s = Inr (b, s1)"
    by (simp add: new_epoch_def)
  have "int (length (sampled_archs s1)) = fidelity_counter s1
        \<or> int (length (sampled_archs s1)) = number_archs s1"
    using fr(5,6,9) len lt by auto
  with run fr show ?thesis by blast
qed

lemma new_epoch_last_step:
  assumes tot: "total_query q"
    and bt: "budget_type s = ''time'' \<or> budget_type s = ''epoch''"
    and cnt: "0 \<le> fidelity_counter s" "fidelity_counter s + 1 = number_archs s"
    and len: "int (length (sampled_archs s)) = fidelity_counter s
              \<or> int (length (sampled_archs s)) = number_archs s"
    and eta: "eta s = of_int e" "1 \<le> e"
  shows "\<exists>b s'. new_epoch q x s = Inr (b, s')
           \<and> eta s' = eta s \<and> budget_max s' = budget_max s \<and> budget_type s' = budget_type s
           \<and> fidelity s' = e * fidelity s \<and> fidelity_counter s' = 0
           \<and> int (length (sampled_archs s')) = number_archs s'
           \<and> number_archs s' =
                (if of_int (e * fidelity s) > budget_max s then number_archs s
                 else if number_archs s div e \<noteq> 0 then number_archs s div e else 1)
           \<and> end_flag s' =
                (end_flag s \<or> of_int (e * fidelity s) > budget_max s \<or> number_archs s div e = 0)"
proof -
  have lt: "fidelity_counter s < number_archs s" using cnt(2) by simp
  from evaluate_and_record_total [OF tot bt cnt(1) lt len] obtain b s1 where
    rec: "evaluate_and_record q x s = Inr (b, s1)" by force
  note fr = evaluate_and_record_frame [OF rec]
  define ranked where "ranked = sort_key (\<lambda>r. - accuracy (models s1 ! r)) (sampled_archs s1)"
  have full: "fidelity_counter s1 = number_archs s1"
    using fr(5,6) cnt(2) by simp
  have lr: "int (length ranked) = number_archs s"
    using fr(9) len cnt(2) by (auto simp: ranked_def)
  then obtain best rest where br: "ranked = best # rest"
    using lt cnt(1) by (cases ranked) auto
  have nf: "\<lfloor>eta s1 * of_int (fidelity s1)\<rfloor> = e * fidelity s"
    using fr(1,4) eta(1) by (simp flip: of_int_mult)
  have m: "\<lfloor>of_int (number_archs s1) / eta s1\<rfloor> = number_archs s div e"
    using fr(1,5) eta(1) by (simp add: floor_divide_of_int_eq)
  have e1: "eta s1 \<noteq> 0" using fr(1) eta by simp
  have dle: "number_archs s div e \<le> number_archs s" "0 \<le> number_archs s div e"
  proof -
    have n0: "0 \<le> number_archs s" using lt cnt(1) by simp
    show "0 \<le> number_archs s div e"
      using eta(2) n0 by (simp add: pos_imp_zdiv_nonneg_iff)
    have "number_archs s div e \<le> number_archs s div 1"
      using eta(2) n0 by (intro zdiv_mono2) simp_all
    then show "number_archs s div e \<le> number_archs s" by simp
  qed
  show ?thesis
  proof (cases "of_int (e * fidelity s) > budget_max s")
    case True
    then have "of_int \<lfloor>eta s1 * of_int (fidelity s1)\<rfloor> > budget_max s1"
      using nf fr(2) by simp
    from finish_round_budget [OF full this ranked_def]
    have "finish_round s1 =
            Inr (s1\<lparr>end_flag := True, fidelity := e * fidelity s, sampled_archs := ranked,
                   number_archs := int (length ranked), fidelity_counter := 0\<rparr>)"
      unfolding nf .
    with rec True fr lr show ?thesis
      by (simp add: new_epoch_def)
  next
    case False
    then have nb: "\<not> of_int \<lfloor>eta s1 * of_int (fidelity s1)\<rfloor> > budget_max s1"
      using nf fr(2) by simp
    show ?thesis
    proof (cases "number_archs s div e = 0")
      case True
      then have z: "\<lfloor>of_int (number_archs s1) / eta s1\<rfloor> = 0" using m by simp
      from finish_round_last [OF full nb e1 z br [unfolded ranked_def]]
      have "finish_round s1 =
              Inr (s1\<lparr>end_flag := True, fidelity := e * fidelity s, sampled_archs := [best],
                     number_archs := 1, fidelity_counter := 0\<rparr>)"
        unfolding nf .
      with rec False True fr show ?thesis
        by (simp add: new_epoch_def)
    next
      case nz: False
      have len_take: "int (length (py_slice ranked (number_archs s div e))) = number_archs s div e"
        using dle lr by (simp add: py_slice_nonneg)
      from finish_round_promote [OF full nb e1 m [symmetric] nz ranked_def]
      have "finish_round s1 =
              Inr (s1\<lparr>fidelity := e * fidelity s,
                     sampled_archs := py_slice ranked (number_archs s div e),
                     number_archs := int (length (py_slice ranked (number_archs s div e))),
                     fidelity_counter := 0\<rparr>)"
        unfolding nf .
      with rec False nz fr len_take show ?thesis
        by (simp add: new_epoch_def)
    qed
  qed
qed


lemma run_to_round_end:
  assumes tot: "total_query q" and e: "1 \<le> e"
  shows "k = nat (number_archs s - fidelity_counter s) \<Longrightarrow> 0 \<le> fidelity_counter s
     \<Longrightarrow> fidelity_counter s < number_archs s
     \<Longrightarrow> int (length (sampled_archs s)) = fidelity_counter s
          \<or> int (length (sampled_archs s)) = number_archs s
     \<Longrightarrow> budget_type s = ''time'' \<or> budget_type s = ''epoch''
     \<Longrightarrow> eta s = of_int e
     \<Longrightarrow> \<exists>s'. run q sampler k s = Inr s'
           \<and> eta s' = eta s \<and> budget_max s' = budget_max s \<and> budget_type s' = budget_type s
           \<and> fidelity s' = e * fidelity s \<and> fidelity_counter s' = 0
           \<and> int (length (sampled_archs s')) = number_archs s'
           \<and> number_archs s' =
                (if of_int (e * fidelity s) > budget_max s then number_archs s
                 else if number_archs s div e \<noteq> 0 then number_archs s div e else 1)
           \<and> end_flag s' =
                (end_flag s \<or> of_int (e * fidelity s) > budget_max s \<or> number_archs s div e = 0)"
proof (induction k arbitrary: s)
  case 0
  then show ?case by simp
next
  case (Suc k)
  show ?case
  proof (cases "fidelity_counter s + 1 = number_archs s")
    case True
    with Suc.prems(1) have k0: "k = 0" by simp
    from new_epoch_last_step [OF tot Suc.prems(5) Suc.prems(2) True Suc.prems(4) Suc.prems(6) e,
        of "sampler (length (models s))"]
    obtain b s' where
      "new_epoch q (sampler (length (models s))) s = Inr (b, s')
       \<and> eta s' = eta s \<and> budget_max s' = budget_max s \<and> budget_type s' = budget_type s
       \<and> fidelity s' = e * fidelity s \<and> fidelity_counter s' = 0
       \<and> int (length (sampled_archs s')) = number_archs s'
       \<and> number_archs s' =
            (if of_int (e * fidelity s) > budget_max s then number_archs s
             else if number_archs s div e \<noteq> 0 then number_archs s div e else 1)
       \<and> end_flag s' =
            (end_flag s \<or> of_int (e * fidelity s) > budget_max s \<or> number_archs s div e = 0)"
      by blast
    then show ?thesis
      using k0 by simp
  next
    case False
    with Suc.prems(3) have lt: "fidelity_counter s + 1 < number_archs s" by simp
    from new_epoch_inner_step [OF tot Suc.prems(5) Suc.prems(2) lt Suc.prems(4),
        of "sampler (length (models s))"]
    obtain b s1 where
      step: "new_epoch q (sampler (length (models s))) s = Inr (b, s1)" and
      fr: "eta s1 = eta s" "budget_max s1 = budget_max s" "budget_type s1 = budget_type s"
        "fidelity s1 = fidelity s" "number_archs s1 = number_archs s"
        "fidelity_counter s1 = fidelity_counter s + 1" "end_flag s1 = end_flag s" and
      len1: "int (length (sampled_archs s1)) = fidelity_counter s1
             \<or> int (length (sampled_archs s1)) = number_archs s1"
      by blast
    have k: "k = nat (number_archs s1 - fidelity_counter s1)"
      using Suc.prems(1) fr(5,6) by simp
    have c1: "0 \<le> fidelity_counter s1" "fidelity_counter s1 < number_archs s1"
      using Suc.prems(2) lt fr(5,6) by simp_all
    have bt1: "budget_type s1 = ''time'' \<or> budget_type s1 = ''epoch''"
      using Suc.prems(5) fr(3) by simp
    have eta1: "eta s1 = of_int e" using Suc.prems(6) fr(1) by simp
    from Suc.IH [OF k c1 len1 bt1 eta1] obtain s' where
      "run q sampler k s1 = Inr s'
       \<and> eta s' = eta s1 \<and> budget_max s' = budget_max s1 \<and> budget_type s' = budget_type s1
       \<and> fidelity s' = e * fidelity s1 \<and> fidelity_counter s' = 0
       \<and> int (length (sampled_archs s')) = number_archs s'
       \<and> number_archs s' =
            (if of_int (e * fidelity s1) > budget_max s1 then number_archs s1
             else if number_archs s1 div e \<noteq> 0 then number_archs s1 div e else 1)
       \<and> end_flag s' =
            (end_flag s1 \<or> of_int (e * fidelity s1) > budget_max s1 \<or> number_archs s1 div e = 0)"
      by blast
    then show ?thesis
      using step fr by simp
  qed
qed

lemma run_round_effect:
  assumes tot: "total_query q" and e: "2 \<le> e" and start: "round_start e b s"
  shows "\<exists>s'. run_round q sampler s = Inr s' \<and> round_start e b s'
           \<and> fidelity s' = e * fidelity s
           \<and> int (length (sampled_archs s')) = number_archs s'
           \<and> number_archs s' =
                (if of_int (e * fidelity s) > b then number_archs s
                 else if number_archs s div e \<noteq> 0 then number_archs s div e else 1)
           \<and> end_flag s' = (end_flag s \<or> of_int (e * fidelity s) > b \<or> number_archs s div e = 0)"
proof -
  have e1: "1 \<le> e" using e by simp
  from start have c: "fidelity_counter s = 0" and n: "1 \<le> number_archs s"
    and len: "sampled_archs s = [] \<or> int (length (sampled_archs s)) = number_archs s"
    and bt: "budget_type s = ''time'' \<or> budget_type s = ''epoch''"
    and eta: "eta s = of_int e" and bm: "budget_max s = b"
    by (simp_all add: round_start_def)
  have k: "nat (number_archs s) = nat (number_archs s - fidelity_counter s)"
    using c by simp
  have c0: "0 \<le> fidelity_counter s" "fidelity_counter s < number_archs s"
    using c n by simp_all
  have len': "int (length (sampled_archs s)) = fidelity_counter s
              \<or> int (length (sampled_archs s)) = number_archs s"
    using len c by auto
  from run_to_round_end [OF tot e1 k c0 len' bt eta, of sampler] obtain s' where
    r: "run q sampler (nat (number_archs s)) s = Inr s'"
      "eta s' = eta s" "budget_max s' = budget_max s" "budget_type s' = budget_type s"
      "fidelity s' = e * fidelity s" "fidelity_counter s' = 0"
      "int (length (sampled_archs s')) = number_archs s'"
      "number_archs s' =
         (if of_int (e * fidelity s) > budget_max s then number_archs s
          else if number_archs s div e \<noteq> 0 then number_archs s div e else 1)"
      "end_flag s' =
         (end_flag s \<or> of_int (e * fidelity s) > budget_max s \<or> number_archs s div e = 0)"
    by blast
  have pos: "0 \<le> number_archs s div e"
    using e n by (simp add: pos_imp_zdiv_nonneg_iff)
  have n': "1 \<le> number_archs s'"
    using r(8) n pos by (auto split: if_splits)
  have "round_start e b s'"
    using r(2,3,4,6,7) n' bt eta bm by (simp add: round_start_def)
  with r bm show ?thesis
    by (simp add: run_round_def)
qed


lemma run_rounds_Suc_last:
  "run_rounds q sampler (Suc r) s =
     (case run_rounds q sampler r s of Inl err \<Rightarrow> Inl err | Inr s' \<Rightarrow> run_round q sampler s')"
proof (induction r arbitrary: s)
  case 0
  show ?case by (simp split: sum.splits)
next
  case (Suc r)
  show ?case
  proof (cases "run_round q sampler s")
    case (Inl err)
    then show ?thesis by simp
  next
    case (Inr s1)
    have "run_rounds q sampler (Suc (Suc r)) s = run_rounds q sampler (Suc r) s1"
      using Inr by simp
    also have "\<dots> = (case run_rounds q sampler r s1 of Inl err \<Rightarrow> Inl err
                      | Inr s' \<Rightarrow> run_round q sampler s')"
      by (rule Suc.IH)
    also have "run_rounds q sampler r s1 = run_rounds q sampler (Suc r) s"
      using Inr by simp
    finally show ?thesis .
  qed
qed

lemma run_rounds_invariant:
  assumes tot: "total_query q" and e: "2 \<le> e" and start: "round_start e b s0"
  shows "\<exists>s. run_rounds q sampler r s0 = Inr s \<and> round_start e b s
           \<and> fidelity s = e ^ r * fidelity s0"
proof (induction r)
  case 0
  show ?case using start by simp
next
  case (Suc r)
  then obtain s where s: "run_rounds q sampler r s0 = Inr s" "round_start e b s"
    "fidelity s = e ^ r * fidelity s0" by blast
  from run_round_effect [OF tot e s(2), of sampler] obtain s' where
    "run_round q sampler s = Inr s'" "round_start e b s'" "fidelity s' = e * fidelity s"
    by blast
  with s show ?case
    by (simp add: run_rounds_Suc_last del: run_rounds.simps)
qed

lemma floor_log_less_power:
  assumes e: "2 \<le> e" and x: "0 < x" and fl: "\<lfloor>log (of_int e) x\<rfloor> < int k"
  shows "x < of_int e ^ k"
proof -
  have b: "1 < (of_int e :: real)" using e by simp
  from fl have "log (of_int e) x < real k"
    by (simp add: floor_less_iff)
  then have "x < of_int e powr real k"
    using b x by (simp add: log_less_iff)
  also have "\<dots> = of_int e ^ k"
    using b by (simp add: powr_realpow)
  finally show ?thesis .
qed


lemma round_start_init:
  "1 \<le> n \<Longrightarrow> bt = ''time'' \<or> bt = ''epoch'' \<Longrightarrow> round_start e b (init b f n (of_int e) bt)"
  by (simp add: round_start_def init_def)

text \<open>
  C8, as stated: the population shrinks or stays at 1 at every end of a round, and the end
  flag is set after at most \<open>log\<^bsub>eta\<^esub> (budget_max / min_fidelity)\<close> rounds. In the scenario of
  8 architectures, promotion factor 2, starting fidelity 1 and budget 8, the logarithm is 3
  and the end flag is still unset after three rounds. With 4 architectures and budget 1,
  the first round ends over budget, and the population is 4 after the first round and 4
  after the second.
\<close>

theorem successive_halving_rounds_counterexample:
  "end_of (run_rounds constant_query unit_sampler 3 (init 8 1 8 2 ''epoch'')) = Inr False
   \<and> log 2 (8 / 1) = 3
   \<and> population_size (run_rounds constant_query unit_sampler 1 (init 1 1 4 2 ''epoch'')) = Inr 4
   \<and> population_size (run_rounds constant_query unit_sampler 2 (init 1 1 4 2 ''epoch'')) = Inr 4"
proof -
  have "log 2 8 = log 2 (2 ^ 3)" by simp
  also have "\<dots> = 3" by (simp only: log_pow_cancel)
  finally have l: "log 2 (8 / 1) = (3::real)" by simp
  have a: "end_of (run_rounds constant_query unit_sampler 3 (init 8 1 8 2 ''epoch'')) = Inr False"
    by code_simp
  have c: "population_size (run_rounds constant_query unit_sampler 1 (init 1 1 4 2 ''epoch'')) = Inr 4"
    by code_simp
  have d: "population_size (run_rounds constant_query unit_sampler 2 (init 1 1 4 2 ''epoch'')) = Inr 4"
    by code_simp
  from a l c d show ?thesis by simp
qed

text \<open>
  C8, amended: for an integer promotion factor of at least 2, a starting fidelity of at
  least 1, a bracket of at least one architecture, a budget type that is one of the two
  known ones and queries that do not raise, every round runs through; the fidelity after
  \<open>r\<close> rounds is \<open>eta ^ r\<close> times the starting fidelity and it strictly increases with
  every round; at the end of a round the population is as long as \<^verbatim>\<open>number_archs\<close> says
  and not empty; its size is unchanged when the new fidelity exceeds \<^verbatim>\<open>budget_max\<close>, and
  otherwise it strictly decreases or stays fixed at 1; the end flag, once set, stays set,
  it is set as soon as the fidelity exceeds \<^verbatim>\<open>budget_max\<close>, and so it is set after every
  number of rounds greater than the floor of \<open>log\<^bsub>eta\<^esub> (budget_max / min_fidelity)\<close>, that
  is after at most that floor plus one rounds.
\<close>

theorem successive_halving_rounds:
  assumes e: "2 \<le> e" and f: "1 \<le> min_fidelity" and n: "1 \<le> n"
    and bt: "bt = ''time'' \<or> bt = ''epoch''" and tot: "total_query q"
  shows "\<exists>s s'. run_rounds q sampler r (init b min_fidelity n (of_int e) bt) = Inr s
           \<and> run_rounds q sampler (Suc r) (init b min_fidelity n (of_int e) bt) = Inr s'
           \<and> fidelity s = e ^ r * min_fidelity
           \<and> fidelity s' = e * fidelity s \<and> fidelity s < fidelity s'
           \<and> int (length (sampled_archs s')) = number_archs s' \<and> 1 \<le> number_archs s'
           \<and> (if of_int (fidelity s') > b then number_archs s' = number_archs s
               else number_archs s' < number_archs s
                    \<or> (number_archs s' = 1 \<and> number_archs s = 1))
           \<and> (end_flag s \<longrightarrow> end_flag s')
           \<and> (b < of_int (fidelity s') \<longrightarrow> end_flag s')
           \<and> (of_int min_fidelity \<le> b
                \<longrightarrow> \<lfloor>log (of_int e) (b / of_int min_fidelity)\<rfloor> < int (Suc r)
                \<longrightarrow> end_flag s')"
proof -
  let ?s0 = "init b min_fidelity n (of_int e) bt"
  have start: "round_start e b ?s0" using n bt by (rule round_start_init)
  have f0: "fidelity (init b min_fidelity n (of_int e) bt) = min_fidelity"
    by (simp add: init_def)
  from run_rounds_invariant [OF tot e start, of sampler r] obtain s where
    s: "run_rounds q sampler r ?s0 = Inr s" "round_start e b s"
      "fidelity s = e ^ r * min_fidelity" unfolding f0 by blast
  from run_round_effect [OF tot e s(2), of sampler] obtain s' where
    s': "run_round q sampler s = Inr s'" "round_start e b s'" "fidelity s' = e * fidelity s"
      "int (length (sampled_archs s')) = number_archs s'"
      "number_archs s' =
         (if of_int (e * fidelity s) > b then number_archs s
          else if number_archs s div e \<noteq> 0 then number_archs s div e else 1)"
      "end_flag s' = (end_flag s \<or> of_int (e * fidelity s) > b \<or> number_archs s div e = 0)"
    by blast
  have next_run: "run_rounds q sampler (Suc r) ?s0 = Inr s'"
    using s(1) s'(1) by (simp add: run_rounds_Suc_last del: run_rounds.simps)
  have fs: "fidelity s = e ^ r * min_fidelity" by (rule s(3))
  have fpos: "1 \<le> fidelity s"
  proof -
    have "1 \<le> e ^ r" using e by (simp add: one_le_power)
    then have "1 * 1 \<le> e ^ r * min_fidelity" using f by (intro mult_mono) simp_all
    then show ?thesis using fs by simp
  qed
  have inc: "fidelity s < fidelity s'"
  proof -
    have "1 * fidelity s < e * fidelity s"
      using e fpos by (intro mult_strict_right_mono) simp_all
    then show ?thesis using s'(3) by simp
  qed
  have ns: "1 \<le> number_archs s" using s(2) by (simp add: round_start_def)
  have ns': "1 \<le> number_archs s'" using s'(2) by (simp add: round_start_def)
  have dlt: "number_archs s div e < number_archs s"
    using e ns by (intro int_div_less_self) simp_all
  have small: "number_archs s div e = 0 \<Longrightarrow> number_archs s \<noteq> 1 \<Longrightarrow> 1 < number_archs s"
    using ns by simp
  have pop: "if of_int (fidelity s') > b then number_archs s' = number_archs s
             else number_archs s' < number_archs s
                  \<or> (number_archs s' = 1 \<and> number_archs s = 1)"
    using s'(5) s'(3) dlt ns by (auto split: if_splits)
  have keep: "end_flag s \<longrightarrow> end_flag s'" using s'(6) by simp
  have over: "b < of_int (fidelity s') \<longrightarrow> end_flag s'" using s'(6) s'(3) by simp
  have lg: "end_flag s'"
    if le: "of_int min_fidelity \<le> b"
      and fl: "\<lfloor>log (of_int e) (b / of_int min_fidelity)\<rfloor> < int (Suc r)"
  proof -
    have mpos: "0 < (of_int min_fidelity :: real)" using f by simp
    then have xpos: "0 < b / of_int min_fidelity" using le by simp
    from floor_log_less_power [OF e xpos fl]
    have "b / of_int min_fidelity < of_int e ^ Suc r" .
    then have "b < of_int e ^ Suc r * of_int min_fidelity"
      using mpos by (simp add: pos_divide_less_eq)
    also have "\<dots> = of_int (fidelity s')"
      using s'(3) fs by simp
    finally show ?thesis using over by simp
  qed
  from s(1) next_run fs s'(3) inc s'(4) ns' pop keep over lg show ?thesis
    by blast
qed

theorem successive_halving_rounds_witness:
  "(2::int) \<le> 2 \<and> (1::int) \<le> 1 \<and> (1::int) \<le> 8 \<and> total_query constant_query
   \<and> \<lfloor>log (of_int 2) (8 / of_int 1)\<rfloor> < int (Suc 3)
   \<and> end_of (run_rounds constant_query unit_sampler (Suc 3) (init 8 1 8 (of_int 2) ''epoch''))
       = Inr True"
proof -
  have tot: "total_query constant_query"
    by (simp add: total_query_def constant_query_def)
  have "log 2 8 = log 2 (2 ^ 3)" by simp
  also have "\<dots> = 3" by (simp only: log_pow_cancel)
  finally have l: "log 2 (8::real) = 3" .
  have fl: "\<lfloor>log (of_int 2) (8 / of_int 1)\<rfloor> < int (Suc 3)"
    by (simp add: l)
  from successive_halving_rounds [of 2 1 8 "''epoch''" constant_query unit_sampler 3 8] tot fl
  obtain s' where
    "run_rounds constant_query unit_sampler (Suc 3) (init 8 1 8 (of_int 2) ''epoch'') = Inr s'"
    "end_flag s'"
    by auto
  then have "end_of (run_rounds constant_query unit_sampler (Suc 3) (init 8 1 8 (of_int 2) ''epoch''))
      = Inr True"
    by (simp add: end_of_def)
  with tot fl show ?thesis by simp
qed

end
